theory Spec2Isabelle
  imports Complex_Main "HOL-Library.Product_Lexorder" "HOL-Library.Code_Target_Numeral"
begin

section \<open>Configuration constants\<close>

text \<open>The parameters at the top of \<^verbatim>\<open>main.py\<close>. \<^verbatim>\<open>CELLS = RES // SIZE\<close>.\<close>

definition RES :: int where "RES = 800"
definition SIZE :: int where "SIZE = 20"
definition CELLS :: int where "CELLS = RES div SIZE"
definition SPEED_CELLS :: int where "SPEED_CELLS = 15"
definition SPEED :: int where "SPEED = SPEED_CELLS * SIZE"
definition INIT_LEN :: int where "INIT_LEN = 5"
definition BULLET_SPEED :: real where "BULLET_SPEED = 700"
definition BULLET_RADIUS :: real where "BULLET_RADIUS = 5"
definition BULLET_FADE_TIME :: real where "BULLET_FADE_TIME = 0.25"
definition ENEMY_SPAWN_EVERY :: real where "ENEMY_SPAWN_EVERY = 1.5"
definition ENEMY_REPATH_EVERY :: real where "ENEMY_REPATH_EVERY = 0.25"

type_synonym cell = "int \<times> int"
type_synonym point = "real \<times> real"

section \<open>Grid helpers\<close>

text \<open>\<^verbatim>\<open>move_to_cell\<close>: the neighbouring cell, or \<^verbatim>\<open>None\<close> outside the grid.\<close>

definition move_to_cell :: "int \<Rightarrow> int \<Rightarrow> int \<Rightarrow> int \<Rightarrow> cell option" where
  "move_to_cell xc yc dx dy =
     (let nx = xc + dx; ny = yc + dy
      in if nx < 0 \<or> nx \<ge> CELLS \<or> ny < 0 \<or> ny \<ge> CELLS then None else Some (nx, ny))"

text \<open>\<^verbatim>\<open>can_turn\<close>: a turn is refused exactly when it is the reversal of the heading.\<close>

definition can_turn :: "cell \<Rightarrow> cell \<Rightarrow> bool" where
  "can_turn current new = (\<not> (fst current = - fst new \<and> snd current = - snd new))"

section \<open>Direction intents\<close>

text \<open>The keys the \<^verbatim>\<open>KEYDOWN\<close> handler distinguishes; every other key is \<open>K_other\<close>.\<close>

datatype key = K_w | K_UP | K_s | K_DOWN | K_a | K_LEFT | K_d | K_RIGHT | K_other

text \<open>The \<^verbatim>\<open>if/elif\<close> chain of the handler: the direction a key asks for, the current
  heading when the key is none of the eight.\<close>

definition key_dir :: "cell \<Rightarrow> key \<Rightarrow> cell" where
  "key_dir d k =
     (if k = K_w \<or> k = K_UP then (0, -1)
      else if k = K_s \<or> k = K_DOWN then (0, 1)
      else if k = K_a \<or> k = K_LEFT then (-1, 0)
      else if k = K_d \<or> k = K_RIGHT then (1, 0)
      else d)"

text \<open>Queuing (line 345): the new direction replaces \<^verbatim>\<open>queued_dir\<close> only when it differs
  from the heading and the turn is legal.\<close>

definition queue_dir :: "cell \<Rightarrow> cell \<Rightarrow> cell \<Rightarrow> cell" where
  "queue_dir d queued nd = (if nd \<noteq> d \<and> can_turn d nd then nd else queued)"

definition on_keydown :: "cell \<Rightarrow> cell \<Rightarrow> key \<Rightarrow> cell" where
  "on_keydown d queued k = queue_dir d queued (key_dir d k)"

text \<open>Application at a grid-step boundary (lines 369-370): the heading after the test.\<close>

definition apply_queued :: "cell \<Rightarrow> cell \<Rightarrow> cell" where
  "apply_queued d queued = (if queued \<noteq> d \<and> can_turn d queued then queued else d)"

section \<open>Python arithmetic helpers\<close>

datatype py_error = ZeroDivisionError | IndexError | SystemExit

text \<open>\<^verbatim>\<open>math.hypot\<close> over the reals, and float division, which raises on a zero
  divisor.\<close>

definition hypot :: "real \<Rightarrow> real \<Rightarrow> real" where
  "hypot dx dy = sqrt (dx\<^sup>2 + dy\<^sup>2)"

definition py_div :: "real \<Rightarrow> real \<Rightarrow> py_error + real" where
  "py_div a b = (if b = 0 then Inl ZeroDivisionError else Inr (a / b))"

text \<open>\<^verbatim>\<open>a or b\<close> on floats: \<^verbatim>\<open>0.0\<close> is the only falsy value.\<close>

definition py_or :: "real \<Rightarrow> real \<Rightarrow> real" where
  "py_or a b = (if a = 0 then b else a)"

text \<open>\<^verbatim>\<open>int(v)\<close> on a float truncates toward zero.\<close>

definition py_int :: "real \<Rightarrow> int" where
  "py_int v = (if v \<ge> 0 then \<lfloor>v\<rfloor> else \<lceil>v\<rceil>)"

section \<open>Trail path\<close>

text \<open>The distances of \<^verbatim>\<open>trim_path_to_length\<close>, newest segment first:
  \<^verbatim>\<open>range(len(pts) - 1, 0, -1)\<close> is \<open>rev [1..<length pts]\<close>.\<close>

definition seg_dists :: "point list \<Rightarrow> real list" where
  "seg_dists pts =
     map (\<lambda>i. hypot (fst (pts ! i) - fst (pts ! (i - 1))) (snd (pts ! i) - snd (pts ! (i - 1))))
       (rev [1..<length pts])"

text \<open>The second loop, over \<^verbatim>\<open>enumerate(dists, start=1)\<close> with the running \<^verbatim>\<open>total\<close>
  (here \<open>total_px\<close>). On the first segment that reaches the budget the new path is built
  and returned; when the loop runs out the path is left as it is. \<open>seg_len\<close> is never
  zero, so the division cannot raise.\<close>

fun trim_scan :: "point list \<Rightarrow> real \<Rightarrow> real \<Rightarrow> (nat \<times> real) list \<Rightarrow> point list" where
  "trim_scan pts max_len_px total_px [] = pts"
| "trim_scan pts max_len_px total_px ((idx, d) # rest) =
     (if total_px + d \<ge> max_len_px then
        (let keep_from = length pts - 1 - idx;
             leftover = max_len_px - total_px;
             x0 = fst (pts ! keep_from); y0 = snd (pts ! keep_from);
             x1 = fst (pts ! (keep_from + 1)); y1 = snd (pts ! (keep_from + 1));
             seg_len = py_or (hypot (x1 - x0) (y1 - y0)) 1;
             t = leftover / seg_len;
             new_tail = (x1 + (x0 - x1) * (1 - t), y1 + (y0 - y1) * (1 - t))
         in new_tail # drop (keep_from + 1) pts)
      else trim_scan pts max_len_px (total_px + d) rest)"

definition trim_path_to_length :: "point list \<Rightarrow> real \<Rightarrow> point list" where
  "trim_path_to_length path_deque max_len_px =
     (if length path_deque \<le> 1 then path_deque
      else trim_scan path_deque max_len_px 0
             (zip [1..<Suc (length (seg_dists path_deque))] (seg_dists path_deque)))"

text \<open>Lines 404-405 of the frame: the head position is appended and the path trimmed to
  \<^verbatim>\<open>length_cells * SIZE\<close>.\<close>

definition trail_step :: "point list \<Rightarrow> real \<Rightarrow> real \<Rightarrow> int \<Rightarrow> point list" where
  "trail_step path x y length_cells =
     trim_path_to_length (path @ [(x, y)]) (real_of_int (length_cells * SIZE))"

text \<open>The cumulative polyline length of a path.\<close>

fun path_len :: "point list \<Rightarrow> real" where
  "path_len [] = 0"
| "path_len [p] = 0"
| "path_len (p # q # ps) = hypot (fst q - fst p) (snd q - snd p) + path_len (q # ps)"

section \<open>Pathfinder\<close>

text \<open>An open-heap item \<^verbatim>\<open>(f, g, (x, y))\<close>. The costs start at \<open>0\<close> and only grow by
  \<^verbatim>\<open>gc + 1\<close>, so they are naturals; tuples compare lexicographically, as the product order
  does here.\<close>

type_synonym entry = "nat \<times> nat \<times> cell"

text \<open>\<^verbatim>\<open>heapq\<close> keeps a binary heap inside the list. \<^verbatim>\<open>heappop\<close> returns the least item and
  removes one occurrence of it; items are compared as values, so the array layout is not
  observable and the model keeps the items as a plain list.\<close>

definition heappush :: "entry list \<Rightarrow> entry \<Rightarrow> entry list" where
  "heappush openh e = e # openh"

definition heappop :: "entry list \<Rightarrow> entry \<times> entry list" where
  "heappop openh = (let m = Min (set openh) in (m, remove1 m openh))"

definition in_grid :: "cell \<Rightarrow> bool" where
  "in_grid c = (0 \<le> fst c \<and> fst c < CELLS \<and> 0 \<le> snd c \<and> snd c < CELLS)"

text \<open>The nested \<^verbatim>\<open>h(x, y)\<close>: the Manhattan distance to the goal.\<close>

definition astar_h :: "cell \<Rightarrow> cell \<Rightarrow> nat" where
  "astar_h goal c = nat (\<bar>fst c - fst goal\<bar> + \<bar>snd c - snd goal\<bar>)"

text \<open>\<^verbatim>\<open>g.get((nx, ny), 1e9)\<close>.\<close>

definition g_get :: "(cell \<rightharpoonup> nat) \<Rightarrow> cell \<Rightarrow> nat" where
  "g_get g c = (case g c of None \<Rightarrow> 1000000000 | Some v \<Rightarrow> v)"

definition dirs :: "cell list" where
  "dirs = [(1, 0), (-1, 0), (0, 1), (0, -1)]"

text \<open>One pass of the body of \<^verbatim>\<open>for dx, dy in ...\<close> (lines 313-322) on the open heap, the
  \<^verbatim>\<open>came\<close> dictionary and the \<^verbatim>\<open>g\<close> dictionary.\<close>

definition astar_neighbor ::
  "cell \<Rightarrow> cell set \<Rightarrow> cell \<Rightarrow> nat \<Rightarrow> cell
   \<Rightarrow> entry list \<times> (cell \<rightharpoonup> cell) \<times> (cell \<rightharpoonup> nat)
   \<Rightarrow> entry list \<times> (cell \<rightharpoonup> cell) \<times> (cell \<rightharpoonup> nat)" where
  "astar_neighbor goal blocked_set c gc d st =
     (case st of (openh, came, g) \<Rightarrow>
        (let n = (fst c + fst d, snd c + snd d)
         in if \<not> in_grid n then st
            else if n \<in> blocked_set \<and> n \<noteq> goal then st
            else (let ng = gc + 1
                  in if ng < g_get g n
                     then (heappush openh (ng + astar_h goal n, ng, n), came(n \<mapsto> c), g(n \<mapsto> ng))
                     else st)))"

text \<open>The path reconstruction (lines 307-312). The loop follows \<^verbatim>\<open>came\<close> for as long as the
  current cell is a key, so on a cyclic dictionary it does not return: the result
  \<open>None\<close> stands for that.\<close>

partial_function (option) reconstruct :: "(cell \<rightharpoonup> cell) \<Rightarrow> cell \<Rightarrow> cell list \<Rightarrow> cell list option" where
  "reconstruct came c path =
     (case came c of
        None \<Rightarrow> Some (rev path)
      | Some p \<Rightarrow> reconstruct came p (path @ [p]))"

text \<open>The measure of the main loop: the heap's size plus twice the sum of the \<^verbatim>\<open>g\<close> values
  over the grid. A pop takes one from the first, a push adds one and takes at least one
  from the sum.\<close>

definition grid :: "cell set" where
  "grid = {0..<CELLS} \<times> {0..<CELLS}"

definition astar_measure :: "entry list \<Rightarrow> (cell \<rightharpoonup> nat) \<Rightarrow> nat" where
  "astar_measure openh g = length openh + 2 * (\<Sum>n\<in>grid. g_get g n)"

lemma in_grid_iff: "in_grid c \<longleftrightarrow> c \<in> grid"
  by (cases c) (auto simp: in_grid_def grid_def)

lemma finite_grid: "finite grid"
  by (simp add: grid_def)

lemma sum_g_get_update:
  assumes "n \<in> grid" and "ng < g_get g n"
  shows "(\<Sum>m\<in>grid. g_get (g(n \<mapsto> ng)) m) < (\<Sum>m\<in>grid. g_get g m)"
proof -
  have a: "(\<Sum>m\<in>grid. g_get g m) = g_get g n + (\<Sum>m\<in>grid - {n}. g_get g m)"
    using assms(1) finite_grid by (simp add: sum.remove)
  have b: "(\<Sum>m\<in>grid. g_get (g(n \<mapsto> ng)) m)
             = g_get (g(n \<mapsto> ng)) n + (\<Sum>m\<in>grid - {n}. g_get (g(n \<mapsto> ng)) m)"
    using assms(1) finite_grid by (simp add: sum.remove)
  have c: "(\<Sum>m\<in>grid - {n}. g_get (g(n \<mapsto> ng)) m) = (\<Sum>m\<in>grid - {n}. g_get g m)"
    by (rule sum.cong) (auto simp: g_get_def)
  have d: "g_get (g(n \<mapsto> ng)) n = ng"
    by (simp add: g_get_def)
  show ?thesis
    using a b c d assms(2) by linarith
qed

lemma astar_neighbor_measure:
  assumes "astar_neighbor goal blocked_set c gc d (openh, came, g) = (openh', came', g')"
  shows "astar_measure openh' g' \<le> astar_measure openh g"
proof (cases "(openh', came', g') = (openh, came, g)")
  case True
  then show ?thesis by simp
next
  case False
  define n where "n = (fst c + fst d, snd c + snd d)"
  from False assms have push: "in_grid n" "gc + 1 < g_get g n"
    "openh' = heappush openh (gc + 1 + astar_h goal n, gc + 1, n)" "g' = g(n \<mapsto> gc + 1)"
    by (auto simp: astar_neighbor_def Let_def n_def split: if_splits)
  have "(\<Sum>m\<in>grid. g_get g' m) < (\<Sum>m\<in>grid. g_get g m)"
    using push(1,2,4) sum_g_get_update in_grid_iff by simp
  then show ?thesis
    using push(3) by (simp add: astar_measure_def heappush_def)
qed

lemma fold_astar_neighbor_measure:
  "fold (astar_neighbor goal blocked_set c gc) ds (openh, came, g) = (openh', came', g')
   \<Longrightarrow> astar_measure openh' g' \<le> astar_measure openh g"
proof (induction ds arbitrary: openh came g)
  case Nil
  then show ?case by simp
next
  case (Cons d ds)
  obtain o1 c1 g1 where s: "astar_neighbor goal blocked_set c gc d (openh, came, g) = (o1, c1, g1)"
    by (metis prod_cases3)
  from Cons.prems s have "fold (astar_neighbor goal blocked_set c gc) ds (o1, c1, g1) = (openh', came', g')"
    by simp
  then have "astar_measure openh' g' \<le> astar_measure o1 g1"
    by (rule Cons.IH)
  moreover have "astar_measure o1 g1 \<le> astar_measure openh g"
    using s by (rule astar_neighbor_measure)
  ultimately show ?case by simp
qed

lemma heappop_shorter:
  "openh \<noteq> [] \<Longrightarrow> heappop openh = (e, rest) \<Longrightarrow> length rest < length openh"
proof -
  assume a: "openh \<noteq> []" and b: "heappop openh = (e, rest)"
  have "Min (set openh) \<in> set openh"
    using a by (intro Min_in) auto
  then show ?thesis
    using a b by (auto simp: heappop_def Let_def length_remove1 length_greater_0_conv)
qed

text \<open>The \<^verbatim>\<open>while openh\<close> loop (lines 301-322) with its four variables. The result
  \<open>None\<close> is a reconstruction that does not return.\<close>

function astar_loop ::
  "cell \<Rightarrow> cell \<Rightarrow> cell set \<Rightarrow> entry list \<Rightarrow> (cell \<rightharpoonup> cell) \<Rightarrow> (cell \<rightharpoonup> nat) \<Rightarrow> cell set
   \<Rightarrow> cell list option" where
  "astar_loop start goal blocked_set openh came g visited =
     (if openh = [] then Some [start]
      else (case heappop openh of (e, openh1) \<Rightarrow>
        (let gc = fst (snd e); c = snd (snd e)
         in if c \<in> visited then astar_loop start goal blocked_set openh1 came g visited
            else if c = goal then reconstruct came c [c]
            else (case fold (astar_neighbor goal blocked_set c gc) dirs (openh1, came, g) of
                    (openh2, came2, g2) \<Rightarrow>
                      astar_loop start goal blocked_set openh2 came2 g2 (insert c visited)))))"
  by pat_completeness auto
termination
proof (relation "measure (\<lambda>(start, goal, blocked_set, openh, came, g, visited). astar_measure openh g)",
    goal_cases)
  case 1
  show ?case by simp
next
  case (2 start goal blocked_set openh came g visited e openh1 gc c)
  then have "length openh1 < length openh"
    using heappop_shorter by metis
  then show ?case
    by (simp add: astar_measure_def)
next
  case (3 start goal blocked_set openh came g visited e openh1 gc c openh2 y came2 g2)
  have "length openh1 < length openh"
    using 3(1,2) heappop_shorter by metis
  moreover have "fold (astar_neighbor goal blocked_set c gc) dirs (openh1, came, g) = (openh2, came2, g2)"
    using 3(7,8) by simp
  then have "astar_measure openh2 g2 \<le> astar_measure openh1 g"
    by (rule fold_astar_neighbor_measure)
  ultimately show ?case
    by (simp add: astar_measure_def)
qed

declare astar_loop.simps [simp del]

text \<open>\<^verbatim>\<open>astar(start, goal, blocked)\<close>: the two bounds checks, then the loop from the initial
  heap, dictionaries and visited set.\<close>

definition astar :: "cell \<Rightarrow> cell \<Rightarrow> cell set \<Rightarrow> cell list option" where
  "astar start goal blocked =
     (if \<not> in_grid start then Some []
      else if \<not> in_grid goal then Some []
      else astar_loop start goal blocked
             (heappush [] (astar_h goal start, 0, start)) Map.empty [start \<mapsto> 0] {})"

section \<open>Projectiles\<close>

text \<open>The dictionary appended to \<^verbatim>\<open>bullets\<close>; the keys \<^verbatim>\<open>pos\<close>, \<^verbatim>\<open>vel\<close>, \<^verbatim>\<open>r\<close>, \<^verbatim>\<open>hit\<close>,
  \<^verbatim>\<open>t_hit\<close>, \<^verbatim>\<open>alpha\<close> carry the prefix \<open>b_\<close>.\<close>

record bullet =
  b_pos :: point
  b_vel :: point
  b_r :: real
  b_hit :: bool
  b_t_hit :: real
  b_alpha :: int

text \<open>The \<^verbatim>\<open>MOUSEBUTTONDOWN\<close> handler (lines 347-361): \<open>x\<close>, \<open>y\<close> is the head's pixel
  position, \<open>mx\<close>, \<open>my\<close> the mouse position. The two divisions are the only operations
  that can raise.\<close>

definition fire :: "real \<Rightarrow> real \<Rightarrow> int \<Rightarrow> int \<Rightarrow> py_error + bullet" where
  "fire x y mx my =
     (let hx = x + real_of_int SIZE / 2; hy = y + real_of_int SIZE / 2;
          vx = real_of_int mx - hx; vy = real_of_int my - hy;
          d = py_or (hypot vx vy) 1
      in case py_div vx d of
           Inl e \<Rightarrow> Inl e
         | Inr qx \<Rightarrow>
             (case py_div vy d of
                Inl e \<Rightarrow> Inl e
              | Inr qy \<Rightarrow>
                  Inr \<lparr>b_pos = (hx, hy), b_vel = (qx * BULLET_SPEED, qy * BULLET_SPEED),
                       b_r = BULLET_RADIUS, b_hit = False, b_t_hit = 0, b_alpha = 255\<rparr>))"

text \<open>The motion phase of one bullet (lines 408-419); \<open>None\<close> is the bullet removed from
  the list. \<^verbatim>\<open>bullets.remove(b)\<close> is called on the item the loop is at, and no item kept
  earlier in the list can be equal to it, since the removal tests depend on the value only.\<close>

definition bullet_update :: "real \<Rightarrow> bullet \<Rightarrow> bullet option" where
  "bullet_update dt b =
     (if \<not> b_hit b then
        (let p = (fst (b_pos b) + fst (b_vel b) * dt, snd (b_pos b) + snd (b_vel b) * dt)
         in if fst p < - 50 \<or> fst p > real_of_int RES + 50
               \<or> snd p < - 50 \<or> snd p > real_of_int RES + 50
            then None else Some (b\<lparr>b_pos := p\<rparr>))
      else
        (let t = b_t_hit b + dt;
             b1 = b\<lparr>b_t_hit := t,
                    b_r := BULLET_RADIUS * (1 + 0.6 * (t / BULLET_FADE_TIME)),
                    b_alpha := max 0 (py_int (255 * (1 - t / BULLET_FADE_TIME)))\<rparr>
         in if t \<ge> BULLET_FADE_TIME then None else Some b1))"

definition update_bullets :: "real \<Rightarrow> bullet list \<Rightarrow> bullet list" where
  "update_bullets dt bs = List.map_filter (bullet_update dt) bs"

section \<open>Agents\<close>

text \<open>The attributes of \<^verbatim>\<open>Enemy\<close>, with the prefix \<open>e_\<close>.\<close>

record enemy =
  e_name :: string
  e_hp :: int
  e_speed_px :: int
  e_color :: "int \<times> int \<times> int"
  e_cell :: cell
  e_pos :: point
  e_path :: "cell list"
  e_next_idx :: nat
  e_repath_timer :: real
  e_size :: int

definition TYPES :: "(string \<times> int \<times> int \<times> (int \<times> int \<times> int)) list" where
  "TYPES = [(''pink'', 1, 15, (255, 105, 180)),
            (''red'', 3, 5, (220, 0, 0)),
            (''maroon'', 15, 2, (128, 0, 32))]"

text \<open>\<^verbatim>\<open>Enemy.__init__\<close>. The spawner only passes the kinds \<open>0\<close>, \<open>1\<close>, \<open>2\<close>; any larger index
  raises.\<close>

definition Enemy :: "nat \<Rightarrow> cell \<Rightarrow> py_error + enemy" where
  "Enemy kind c =
     (if kind < length TYPES then
        (case TYPES ! kind of (name, hp, spd_c, color) \<Rightarrow>
           Inr \<lparr>e_name = name, e_hp = hp, e_speed_px = spd_c * SIZE, e_color = color,
                e_cell = c,
                e_pos = (real_of_int (fst c * SIZE) + real_of_int SIZE / 2,
                         real_of_int (snd c * SIZE) + real_of_int SIZE / 2),
                e_path = [], e_next_idx = 0, e_repath_timer = 0, e_size = SIZE - 2\<rparr>)
      else Inl IndexError)"

text \<open>A \<^verbatim>\<open>pygame.Rect\<close>: left, top, width, height.\<close>

record rect =
  r_left :: int
  r_top :: int
  r_width :: int
  r_height :: int

definition enemy_rect :: "enemy \<Rightarrow> rect" where
  "enemy_rect e =
     \<lparr>r_left = py_int (fst (e_pos e) - real_of_int (e_size e) / 2),
      r_top = py_int (snd (e_pos e) - real_of_int (e_size e) / 2),
      r_width = e_size e, r_height = e_size e\<rparr>"

text \<open>The second half of \<^verbatim>\<open>Enemy.update\<close> (lines 181-196): the move toward the next node
  and the snap onto it.\<close>

definition enemy_move :: "real \<Rightarrow> enemy \<Rightarrow> enemy" where
  "enemy_move dt e =
     (if e_next_idx e < length (e_path e) then
        (let nxt = e_path e ! e_next_idx e;
             target_px = (real_of_int (fst nxt * SIZE) + real_of_int SIZE / 2,
                          real_of_int (snd nxt * SIZE) + real_of_int SIZE / 2);
             dx = fst target_px - fst (e_pos e);
             dy = snd target_px - snd (e_pos e);
             dist = hypot dx dy
         in if dist > 1 / 1000000 then
              (let step = real_of_int (e_speed_px e) * dt
               in if step \<ge> dist
                  then e\<lparr>e_pos := target_px, e_cell := nxt, e_next_idx := e_next_idx e + 1\<rparr>
                  else e\<lparr>e_pos := (fst (e_pos e) + dx / dist * step,
                                    snd (e_pos e) + dy / dist * step)\<rparr>)
            else e)
      else e)"

text \<open>\<^verbatim>\<open>Enemy.update\<close>: the periodic replan (lines 173-178), then the move. \<open>None\<close> is a
  call of \<^verbatim>\<open>astar\<close> that does not return.\<close>

definition enemy_update :: "real \<Rightarrow> cell \<Rightarrow> cell set \<Rightarrow> enemy \<Rightarrow> enemy option" where
  "enemy_update dt target_cell blocked_cells e =
     (let e0 = e\<lparr>e_repath_timer := e_repath_timer e - dt\<rparr>
      in if e_repath_timer e0 \<le> 0 \<or> e_path e0 = [] then
           (case astar (e_cell e0) target_cell blocked_cells of
              None \<Rightarrow> None
            | Some p \<Rightarrow>
                Some (enemy_move dt
                  (e0\<lparr>e_path := p, e_next_idx := (if length p > 1 then 1 else 0),
                      e_repath_timer := ENEMY_REPATH_EVERY\<rparr>)))
         else Some (enemy_move dt e0))"

text \<open>\<^verbatim>\<open>for e in enemies: e.update(...)\<close>.\<close>

fun update_enemies :: "real \<Rightarrow> cell \<Rightarrow> cell set \<Rightarrow> enemy list \<Rightarrow> enemy list option" where
  "update_enemies dt target_cell blocked_cells [] = Some []"
| "update_enemies dt target_cell blocked_cells (e # es) =
     (case enemy_update dt target_cell blocked_cells e of
        None \<Rightarrow> None
      | Some e' \<Rightarrow>
          (case update_enemies dt target_cell blocked_cells es of
             None \<Rightarrow> None
           | Some es' \<Rightarrow> Some (e' # es')))"

text \<open>\<^verbatim>\<open>spawn_enemy\<close>: the random side, the random coordinate \<^verbatim>\<open>randrange(CELLS)\<close> and the
  random kind are inputs.\<close>

datatype side = Top | Bottom | Left | Right

definition spawn_enemy :: "side \<Rightarrow> int \<Rightarrow> nat \<Rightarrow> py_error + enemy" where
  "spawn_enemy sd rnd kind =
     (if sd = Top \<or> sd = Bottom
      then Enemy kind (rnd, if sd = Top then 0 else CELLS - 1)
      else Enemy kind (if sd = Left then 0 else CELLS - 1, rnd))"

section \<open>Collisions\<close>

text \<open>The inner loop of lines 436-445 for one unhit bullet at point \<open>p\<close>: the agents after
  it, and whether a containment test matched. \<^verbatim>\<open>Rect.collidepoint\<close> and \<^verbatim>\<open>Rect.colliderect\<close>
  belong to pygame; they are the parameters \<open>cp\<close> and \<open>cr\<close>. \<^verbatim>\<open>enemies.remove(e)\<close> compares
  agents by identity, so it removes the agent the loop is at.\<close>

fun hit_enemies :: "(rect \<Rightarrow> point \<Rightarrow> bool) \<Rightarrow> point \<Rightarrow> enemy list \<Rightarrow> enemy list \<times> bool" where
  "hit_enemies cp p [] = ([], False)"
| "hit_enemies cp p (e # es) =
     (if cp (enemy_rect e) p then
        (let e1 = e\<lparr>e_hp := e_hp e - 1\<rparr>
         in (if e_hp e1 \<le> 0 then es else e1 # es, True))
      else (case hit_enemies cp p es of (es', h) \<Rightarrow> (e # es', h)))"

text \<open>The body of the outer loop (lines 434-445) for one bullet: a bullet already hit is
  skipped; an unhit one runs the inner loop and is marked when a test matched.\<close>

definition bullet_vs_enemies ::
  "(rect \<Rightarrow> point \<Rightarrow> bool) \<Rightarrow> bullet \<Rightarrow> enemy list \<Rightarrow> bullet \<times> enemy list" where
  "bullet_vs_enemies cp b es =
     (if b_hit b then (b, es)
      else
        (case hit_enemies cp (b_pos b) es of (es1, h) \<Rightarrow>
           (if h then b\<lparr>b_hit := True, b_vel := (0, 0), b_alpha := 255, b_t_hit := 0\<rparr> else b,
            es1)))"

text \<open>The outer loop \<^verbatim>\<open>for b in bullets\<close>.\<close>

fun bullets_vs_enemies ::
  "(rect \<Rightarrow> point \<Rightarrow> bool) \<Rightarrow> bullet list \<Rightarrow> enemy list \<Rightarrow> bullet list \<times> enemy list" where
  "bullets_vs_enemies cp [] es = ([], es)"
| "bullets_vs_enemies cp (b # bs) es =
     (case bullet_vs_enemies cp b es of (b1, es1) \<Rightarrow>
        (case bullets_vs_enemies cp bs es1 of (bs', es') \<Rightarrow> (b1 # bs', es')))"

definition head_rect :: "real \<Rightarrow> real \<Rightarrow> rect" where
  "head_rect x y =
     \<lparr>r_left = py_int (x + 2), r_top = py_int (y + 2), r_width = SIZE - 4, r_height = SIZE - 4\<rparr>"

text \<open>The head check (lines 449-452): whether some agent's rectangle meets the head's.\<close>

fun head_hit :: "(rect \<Rightarrow> rect \<Rightarrow> bool) \<Rightarrow> rect \<Rightarrow> enemy list \<Rightarrow> bool" where
  "head_hit cr headR [] = False"
| "head_hit cr headR (e # es) = (if cr (enemy_rect e) headR then True else head_hit cr headR es)"

section \<open>Game state and the frame loop\<close>

text \<open>The module-level variables. The head's pixel position \<^verbatim>\<open>x\<close>, \<^verbatim>\<open>y\<close> is \<open>x_px\<close>, \<open>y_px\<close> and
  the trail deque \<^verbatim>\<open>path\<close> is \<open>path_pts\<close>; the other fields keep their names.\<close>

record game =
  grid_x :: int
  grid_y :: int
  dir_x :: int
  dir_y :: int
  queued_dir :: cell
  progress :: real
  x_px :: real
  y_px :: real
  length_cells :: int
  path_pts :: "point list"
  game_over :: bool
  body :: "cell list"
  apple :: cell
  score :: int
  bullets :: "bullet list"
  enemies :: "enemy list"
  last_spawn_time :: real

text \<open>The state before the first frame (lines 118-139 and 199-200). The first apple is
  \<^verbatim>\<open>(randrange(CELLS), randrange(CELLS))\<close>: the drawn cell is the argument.\<close>

definition init_game :: "cell \<Rightarrow> game" where
  "init_game apple0 =
     \<lparr>grid_x = CELLS div 2, grid_y = CELLS div 2, dir_x = 1, dir_y = 0, queued_dir = (1, 0),
      progress = 0,
      x_px = real_of_int (CELLS div 2 * SIZE), y_px = real_of_int (CELLS div 2 * SIZE),
      length_cells = INIT_LEN,
      path_pts = [(real_of_int (CELLS div 2 * SIZE), real_of_int (CELLS div 2 * SIZE))],
      game_over = False, body = [(CELLS div 2, CELLS div 2)], apple = apple0, score = 0,
      bullets = [], enemies = [], last_spawn_time = 0\<rparr>"

text \<open>The events a frame reads. \<^verbatim>\<open>pygame.mouse.get_pos()\<close> is read when the button event is
  handled; its result travels with the event.\<close>

datatype event = QUIT | KEYDOWN key | MOUSEBUTTONDOWN int int int | OTHER_EVENT

definition process_event :: "game \<Rightarrow> event \<Rightarrow> py_error + game" where
  "process_event s ev =
     (case ev of
        QUIT \<Rightarrow> Inl SystemExit
      | KEYDOWN k \<Rightarrow> Inr (s\<lparr>queued_dir := on_keydown (dir_x s, dir_y s) (queued_dir s) k\<rparr>)
      | MOUSEBUTTONDOWN button mx my \<Rightarrow>
          (if button = 3 then
             (case fire (x_px s) (y_px s) mx my of
                Inl err \<Rightarrow> Inl err
              | Inr b \<Rightarrow> Inr (s\<lparr>bullets := bullets s @ [b]\<rparr>))
           else Inr s)
      | OTHER_EVENT \<Rightarrow> Inr s)"

fun process_events :: "game \<Rightarrow> event list \<Rightarrow> py_error + game" where
  "process_events s [] = Inr s"
| "process_events s (ev # evs) =
     (case process_event s ev of
        Inl err \<Rightarrow> Inl err
      | Inr s' \<Rightarrow> process_events s' evs)"

text \<open>\<^verbatim>\<open>while len(body) > length_cells: body.popleft()\<close>; \<^verbatim>\<open>popleft\<close> raises on an empty
  deque.\<close>

fun trim_body :: "cell list \<Rightarrow> int \<Rightarrow> py_error + cell list" where
  "trim_body [] n = (if 0 > n then Inl IndexError else Inr [])"
| "trim_body (c # cs) n = (if int (length (c # cs)) > n then trim_body cs n else Inr (c # cs))"

text \<open>The relocation loop (lines 393-395) on the sequence of cells the random generator
  draws: the first drawn cell that is not on the body, and the draws left. \<open>None\<close> is a
  loop that never leaves within the draws.\<close>

fun relocate_apple :: "cell list \<Rightarrow> cell list \<Rightarrow> (cell \<times> cell list) option" where
  "relocate_apple bd [] = None"
| "relocate_apple bd (a # draws) =
     (if a \<notin> set bd then Some (a, draws) else relocate_apple bd draws)"

text \<open>The body of the step loop (lines 368-395). The flag of the result tells whether the
  body left by \<^verbatim>\<open>break\<close>; both \<^verbatim>\<open>break\<close>s come with \<^verbatim>\<open>game_over\<close> set.\<close>

definition snake_step :: "game \<Rightarrow> cell list \<Rightarrow> (py_error + (bool \<times> game \<times> cell list)) option" where
  "snake_step s draws =
     (let s1 = s\<lparr>progress := progress s - 1\<rparr>;
          d = apply_queued (dir_x s1, dir_y s1) (queued_dir s1);
          s2 = s1\<lparr>dir_x := fst d, dir_y := snd d\<rparr>
      in case move_to_cell (grid_x s2) (grid_y s2) (dir_x s2) (dir_y s2) of
           None \<Rightarrow> Some (Inr (True, s2\<lparr>game_over := True\<rparr>, draws))
         | Some new_cell \<Rightarrow>
             (let s3 = s2\<lparr>grid_x := fst new_cell, grid_y := snd new_cell\<rparr>
              in if (grid_x s3, grid_y s3) \<in> set (body s3)
                 then Some (Inr (True, s3\<lparr>game_over := True\<rparr>, draws))
                 else
                   (case trim_body (body s3 @ [(grid_x s3, grid_y s3)]) (length_cells s3) of
                      Inl err \<Rightarrow> Some (Inl err)
                    | Inr bd \<Rightarrow>
                        (let s4 = s3\<lparr>body := bd\<rparr>
                         in if (grid_x s4, grid_y s4) = apple s4 then
                              (case relocate_apple (body s4) draws of
                                 None \<Rightarrow> None
                               | Some (a, draws') \<Rightarrow>
                                   Some (Inr (False,
                                     s4\<lparr>length_cells := length_cells s4 + 1,
                                         score := score s4 + 1, apple := a\<rparr>, draws')))
                            else Some (Inr (False, s4, draws))))))"

lemma snake_step_progress:
  "snake_step s draws = Some (Inr (brk, s', draws')) \<Longrightarrow> progress s' = progress s - 1"
  by (auto simp: snake_step_def Let_def split: option.splits if_splits sum.splits)

text \<open>The loop \<^verbatim>\<open>while progress >= 1.0 and not game_over\<close> (line 367).\<close>

function snake_steps :: "game \<Rightarrow> cell list \<Rightarrow> (py_error + (game \<times> cell list)) option" where
  "snake_steps s draws =
     (if progress s \<ge> 1 \<and> \<not> game_over s then
        (case snake_step s draws of
           None \<Rightarrow> None
         | Some (Inl err) \<Rightarrow> Some (Inl err)
         | Some (Inr (brk, s', draws')) \<Rightarrow>
             (if brk then Some (Inr (s', draws')) else snake_steps s' draws'))
      else Some (Inr (s, draws)))"
  by pat_completeness auto
termination
proof (relation "measure (\<lambda>(s, draws). nat \<lfloor>progress s\<rfloor>)", goal_cases)
  case 1
  show ?case by simp
next
  case (2 s draws r x brk y s' draws')
  then have "progress s' = progress s - 1"
    using snake_step_progress by metis
  then show ?case
    using 2(1) by simp
qed

declare snake_steps.simps [simp del]

text \<open>Lines 398-405: the interpolated head position, appended to the trail.\<close>

definition trail_phase :: "game \<Rightarrow> game" where
  "trail_phase s =
     (let interp_x = real_of_int (grid_x s) - real_of_int (dir_x s) * (1 - progress s);
          interp_y = real_of_int (grid_y s) - real_of_int (dir_y s) * (1 - progress s);
          x = interp_x * real_of_int SIZE;
          y = interp_y * real_of_int SIZE
      in s\<lparr>x_px := x, y_px := y, path_pts := trail_step (path_pts s) x y (length_cells s)\<rparr>)"

definition bullets_phase :: "real \<Rightarrow> game \<Rightarrow> game" where
  "bullets_phase dt s = s\<lparr>bullets := update_bullets dt (bullets s)\<rparr>"

text \<open>What a frame consumes: the measured \<open>dt\<close>, the wall clock, the events, the cells the
  random generator would draw for the apple, and the draws of \<^verbatim>\<open>spawn_enemy\<close>.\<close>

record frame_input =
  in_dt :: real
  in_now :: real
  in_events :: "event list"
  in_apples :: "cell list"
  in_side :: side
  in_rnd :: int
  in_kind :: nat

definition spawn_phase :: "frame_input \<Rightarrow> game \<Rightarrow> py_error + game" where
  "spawn_phase i s =
     (if in_now i - last_spawn_time s \<ge> ENEMY_SPAWN_EVERY \<and> \<not> game_over s then
        (case spawn_enemy (in_side i) (in_rnd i) (in_kind i) of
           Inl err \<Rightarrow> Inl err
         | Inr e \<Rightarrow> Inr (s\<lparr>enemies := enemies s @ [e], last_spawn_time := in_now i\<rparr>))
      else Inr s)"

definition enemies_phase :: "real \<Rightarrow> game \<Rightarrow> game option" where
  "enemies_phase dt s =
     (case update_enemies dt (grid_x s, grid_y s) (set (body s)) (enemies s) of
        None \<Rightarrow> None
      | Some es \<Rightarrow> Some (s\<lparr>enemies := es\<rparr>))"

definition combat_phase :: "(rect \<Rightarrow> point \<Rightarrow> bool) \<Rightarrow> game \<Rightarrow> game" where
  "combat_phase cp s =
     (case bullets_vs_enemies cp (bullets s) (enemies s) of
        (bs, es) \<Rightarrow> s\<lparr>bullets := bs, enemies := es\<rparr>)"

definition head_phase :: "(rect \<Rightarrow> rect \<Rightarrow> bool) \<Rightarrow> game \<Rightarrow> game" where
  "head_phase cr s =
     (if head_hit cr (head_rect (x_px s) (y_px s)) (enemies s) then s\<lparr>game_over := True\<rparr> else s)"

text \<open>Lines 433-452: the bullets against the agents, then the agents against the head.\<close>

definition collisions :: "(rect \<Rightarrow> point \<Rightarrow> bool) \<Rightarrow> (rect \<Rightarrow> rect \<Rightarrow> bool) \<Rightarrow> game \<Rightarrow> game" where
  "collisions cp cr s = head_phase cr (combat_phase cp s)"

text \<open>One pass of the main loop up to the rendering, in the order of the source: events,
  steps, trail, bullets, spawn, agents, bullets against agents, agents against the head.\<close>

definition frame_sim ::
  "(rect \<Rightarrow> point \<Rightarrow> bool) \<Rightarrow> (rect \<Rightarrow> rect \<Rightarrow> bool) \<Rightarrow> frame_input \<Rightarrow> game
   \<Rightarrow> (py_error + game) option" where
  "frame_sim cp cr i s =
     (case process_events s (in_events i) of
        Inl err \<Rightarrow> Some (Inl err)
      | Inr s1 \<Rightarrow>
          (case snake_steps
                  (s1\<lparr>progress := progress s1 + real_of_int SPEED * in_dt i / real_of_int SIZE\<rparr>)
                  (in_apples i) of
             None \<Rightarrow> None
           | Some (Inl err) \<Rightarrow> Some (Inl err)
           | Some (Inr (s2, rest)) \<Rightarrow>
               (case spawn_phase i (bullets_phase (in_dt i) (trail_phase s2)) of
                  Inl err \<Rightarrow> Some (Inl err)
                | Inr s3 \<Rightarrow>
                    (case enemies_phase (in_dt i) s3 of
                       None \<Rightarrow> None
                     | Some s4 \<Rightarrow> Some (Inr (collisions cp cr s4))))))"

text \<open>The end of the pass (lines 493-499): a frame that ends with \<^verbatim>\<open>game_over\<close> set leaves
  the program.\<close>

definition frame ::
  "(rect \<Rightarrow> point \<Rightarrow> bool) \<Rightarrow> (rect \<Rightarrow> rect \<Rightarrow> bool) \<Rightarrow> frame_input \<Rightarrow> game
   \<Rightarrow> (py_error + game) option" where
  "frame cp cr i s =
     (case frame_sim cp cr i s of
        None \<Rightarrow> None
      | Some (Inl err) \<Rightarrow> Some (Inl err)
      | Some (Inr s') \<Rightarrow> (if game_over s' then Some (Inl SystemExit) else Some (Inr s')))"

text \<open>The frames from the first one on: the loop runs a frame on each input for as long as
  no frame raises.\<close>

fun run_frames ::
  "(rect \<Rightarrow> point \<Rightarrow> bool) \<Rightarrow> (rect \<Rightarrow> rect \<Rightarrow> bool) \<Rightarrow> game \<Rightarrow> frame_input list
   \<Rightarrow> (py_error + game) option" where
  "run_frames cp cr s [] = Some (Inr s)"
| "run_frames cp cr s (i # inputs) =
     (case frame cp cr i s of
        None \<Rightarrow> None
      | Some (Inl err) \<Rightarrow> Some (Inl err)
      | Some (Inr s') \<Rightarrow> run_frames cp cr s' inputs)"

section \<open>Grid paths\<close>

text \<open>The paths the pathfinder's contract speaks of. A step goes to a 4-adjacent cell of
  the grid that is not blocked, the goal excepted; a grid path runs from an in-bounds
  start to the goal by such steps. The start itself is where the agent stands and is not
  tested against the blocked set, as in the source.\<close>

definition adjacent4 :: "cell \<Rightarrow> cell \<Rightarrow> bool" where
  "adjacent4 a b = (\<bar>fst a - fst b\<bar> + \<bar>snd a - snd b\<bar> = 1)"

definition step_ok :: "cell \<Rightarrow> cell set \<Rightarrow> cell \<Rightarrow> cell \<Rightarrow> bool" where
  "step_ok goal blocked a b = (adjacent4 a b \<and> in_grid b \<and> (b \<in> blocked \<longrightarrow> b = goal))"

fun walk :: "cell \<Rightarrow> cell set \<Rightarrow> cell list \<Rightarrow> bool" where
  "walk goal blocked [] = True"
| "walk goal blocked [a] = True"
| "walk goal blocked (a # b # cs) = (step_ok goal blocked a b \<and> walk goal blocked (b # cs))"

definition grid_path :: "cell \<Rightarrow> cell \<Rightarrow> cell set \<Rightarrow> cell list \<Rightarrow> bool" where
  "grid_path start goal blocked p =
     (p \<noteq> [] \<and> hd p = start \<and> last p = goal \<and> in_grid start \<and> walk goal blocked p)"

definition shortest_grid_path :: "cell \<Rightarrow> cell \<Rightarrow> cell set \<Rightarrow> cell list \<Rightarrow> bool" where
  "shortest_grid_path start goal blocked p =
     (grid_path start goal blocked p \<and> (\<forall>q. grid_path start goal blocked q \<longrightarrow> length p \<le> length q))"

text \<open>\<open>reach k c\<close>: the cell \<open>c\<close> is \<open>k\<close> steps away from the start.\<close>

inductive reach :: "cell \<Rightarrow> cell \<Rightarrow> cell set \<Rightarrow> nat \<Rightarrow> cell \<Rightarrow> bool"
  for start goal blocked where
  reach_start: "reach start goal blocked 0 start"
| reach_step: "reach start goal blocked k c \<Longrightarrow> step_ok goal blocked c n
               \<Longrightarrow> reach start goal blocked (Suc k) n"

section \<open>The invariant of the search loop\<close>

text \<open>The \<^verbatim>\<open>g\<close> value of a cell is the length of a walk to it, and at most the number of
  visited cells; every heap item carries \<open>f = g + h\<close> for a cost no smaller than the cell's
  current \<^verbatim>\<open>g\<close>; every unvisited cell with a \<^verbatim>\<open>g\<close> value has its current item in the heap;
  a visited cell has its least cost, and its neighbours are at most one step further;
  \<^verbatim>\<open>came\<close> points one step back to a visited cell.\<close>

definition g_sound :: "cell \<Rightarrow> cell \<Rightarrow> cell set \<Rightarrow> (cell \<rightharpoonup> nat) \<Rightarrow> cell set \<Rightarrow> bool" where
  "g_sound start goal blocked g V =
     (g start = Some 0 \<and> (\<forall>n v. g n = Some v \<longrightarrow> reach start goal blocked v n \<and> v \<le> card V))"

definition open_ok :: "cell \<Rightarrow> entry list \<Rightarrow> (cell \<rightharpoonup> nat) \<Rightarrow> bool" where
  "open_ok goal openh g =
     (\<forall>f gc c. (f, gc, c) \<in> set openh \<longrightarrow>
        f = gc + astar_h goal c \<and> in_grid c \<and> (\<exists>v. g c = Some v \<and> v \<le> gc))"

definition open_has :: "cell \<Rightarrow> entry list \<Rightarrow> (cell \<rightharpoonup> nat) \<Rightarrow> cell set \<Rightarrow> bool" where
  "open_has goal openh g V =
     (\<forall>n v. g n = Some v \<and> n \<notin> V \<longrightarrow> (v + astar_h goal n, v, n) \<in> set openh)"

definition closed_opt :: "cell \<Rightarrow> cell \<Rightarrow> cell set \<Rightarrow> (cell \<rightharpoonup> nat) \<Rightarrow> cell set \<Rightarrow> bool" where
  "closed_opt start goal blocked g V =
     (\<forall>c\<in>V. \<exists>v. g c = Some v \<and> (\<forall>k. reach start goal blocked k c \<longrightarrow> v \<le> k))"

definition came_ok ::
  "cell \<Rightarrow> cell \<Rightarrow> cell set \<Rightarrow> (cell \<rightharpoonup> cell) \<Rightarrow> (cell \<rightharpoonup> nat) \<Rightarrow> cell set \<Rightarrow> bool" where
  "came_ok start goal blocked came g V =
     ((\<forall>n p. came n = Some p \<longrightarrow>
          p \<in> V \<and> step_ok goal blocked p n \<and> (\<exists>v. g p = Some v \<and> g n = Some (Suc v)))
      \<and> (\<forall>n. came n = None \<longrightarrow> g n = None \<or> n = start))"

definition closed_edges :: "cell \<Rightarrow> cell set \<Rightarrow> (cell \<rightharpoonup> nat) \<Rightarrow> cell set \<Rightarrow> bool" where
  "closed_edges goal blocked g V =
     (\<forall>c\<in>V. \<forall>n v. step_ok goal blocked c n \<and> g c = Some v \<longrightarrow> (\<exists>w. g n = Some w \<and> w \<le> Suc v))"

definition inv_core ::
  "cell \<Rightarrow> cell \<Rightarrow> cell set \<Rightarrow> entry list \<Rightarrow> (cell \<rightharpoonup> cell) \<Rightarrow> (cell \<rightharpoonup> nat) \<Rightarrow> cell set \<Rightarrow> bool" where
  "inv_core start goal blocked openh came g V =
     (g_sound start goal blocked g V \<and> open_ok goal openh g \<and> open_has goal openh g V
      \<and> closed_opt start goal blocked g V \<and> came_ok start goal blocked came g V
      \<and> finite V \<and> V \<subseteq> grid)"

definition astar_inv ::
  "cell \<Rightarrow> cell \<Rightarrow> cell set \<Rightarrow> entry list \<Rightarrow> (cell \<rightharpoonup> cell) \<Rightarrow> (cell \<rightharpoonup> nat) \<Rightarrow> cell set \<Rightarrow> bool" where
  "astar_inv start goal blocked openh came g V =
     (inv_core start goal blocked openh came g V \<and> closed_edges goal blocked g V \<and> goal \<notin> V)"

definition g_mono :: "(cell \<rightharpoonup> nat) \<Rightarrow> (cell \<rightharpoonup> nat) \<Rightarrow> bool" where
  "g_mono g g' = (\<forall>n w. g n = Some w \<longrightarrow> (\<exists>w'. g' n = Some w' \<and> w' \<le> w))"

section \<open>Invariants of the frame loop\<close>

text \<open>An agent between frames stands on an in-bounds cell of its path, and the path holds
  in-bounds cells only; a freshly created agent has an empty path instead.\<close>

definition agent_at :: "enemy \<Rightarrow> bool" where
  "agent_at e =
     (in_grid (e_cell e) \<and> (\<forall>c\<in>set (e_path e). in_grid c) \<and> e_cell e \<in> set (e_path e))"

definition agent_pre :: "enemy \<Rightarrow> bool" where
  "agent_pre e =
     (in_grid (e_cell e) \<and> (\<forall>c\<in>set (e_path e). in_grid c)
      \<and> (e_path e = [] \<or> e_cell e \<in> set (e_path e)))"

definition agents_ok :: "game \<Rightarrow> bool" where
  "agents_ok s = (in_grid (grid_x s, grid_y s) \<and> (\<forall>e\<in>set (enemies s). agent_at e))"

definition counters_ok :: "game \<Rightarrow> bool" where
  "counters_ok s = (length_cells s = INIT_LEN + score s)"

text \<open>What a matching containment test leaves of an agent: the agent with one hit point
  less, or nothing when that was its last.\<close>

definition damaged :: "enemy \<Rightarrow> enemy list" where
  "damaged e = (if e_hp e - 1 \<le> 0 then [] else [e\<lparr>e_hp := e_hp e - 1\<rparr>])"


text \<open>A containment test and an overlap test of the usual half-open kind, to instantiate
  the two pygame parameters in examples.\<close>

definition point_in_rect :: "rect \<Rightarrow> point \<Rightarrow> bool" where
  "point_in_rect rc p =
     (real_of_int (r_left rc) \<le> fst p \<and> fst p < real_of_int (r_left rc + r_width rc)
      \<and> real_of_int (r_top rc) \<le> snd p \<and> snd p < real_of_int (r_top rc + r_height rc))"

definition rects_overlap :: "rect \<Rightarrow> rect \<Rightarrow> bool" where
  "rects_overlap a b =
     (r_left a < r_left b + r_width b \<and> r_left b < r_left a + r_width a
      \<and> r_top a < r_top b + r_height b \<and> r_top b < r_top a + r_height a)"

text \<open>Example data: a pink agent on the head's cell \<open>(20, 20)\<close>, an unhit bullet at its centre,
  and the initial state with the two in it.\<close>

definition pink_agent :: enemy where
  "pink_agent =
     \<lparr>e_name = ''pink'', e_hp = 1, e_speed_px = 300, e_color = (255, 105, 180),
      e_cell = (20, 20), e_pos = (410, 410), e_path = [(20, 20)], e_next_idx = 0,
      e_repath_timer = 0.25, e_size = 18\<rparr>"

definition centre_bullet :: bullet where
  "centre_bullet =
     \<lparr>b_pos = (410, 410), b_vel = (700, 0), b_r = 5, b_hit = False, b_t_hit = 0, b_alpha = 255\<rparr>"

definition kill_scene :: game where
  "kill_scene = (init_game (0, 0))\<lparr>bullets := [centre_bullet], enemies := [pink_agent]\<rparr>"

text \<open>Example data: the initial state with the first apple on the cell right of the head, and
  a frame of a tenth of a second without events and without a spawn, in which the head
  takes one step and eats it.\<close>

definition apple_scene :: game where
  "apple_scene = init_game (21, 20)"

definition apple_frame :: frame_input where
  "apple_frame =
     \<lparr>in_dt = 0.1, in_now = 1, in_events = [], in_apples = [(20, 20), (3, 4)],
      in_side = Top, in_rnd = 0, in_kind = 0\<rparr>"

definition apple_scene_stepped :: game where
  "apple_scene_stepped =
     apple_scene\<lparr>grid_x := 21, progress := 1 / 2, length_cells := 6,
                  body := [(20, 20), (21, 20)], apple := (3, 4), score := 1\<rparr>"

definition apple_scene_after :: game where
  "apple_scene_after =
     apple_scene_stepped\<lparr>x_px := 410, path_pts := [(400, 400), (410, 400)]\<rparr>"


text \<open>Example data: a first frame that took one second, without events; the wall clock
  is past the first spawn time, so an agent is created.\<close>

definition long_frame :: frame_input where
  "long_frame =
     \<lparr>in_dt = 1, in_now = 1700000000, in_events = [], in_apples = [],
      in_side = Top, in_rnd = 0, in_kind = 0\<rparr>"

text \<open>The pixel centre of a cell, \<^verbatim>\<open>(c[0]*SIZE + SIZE/2, c[1]*SIZE + SIZE/2)\<close>.\<close>

definition cell_centre :: "cell \<Rightarrow> point" where
  "cell_centre c =
     (real_of_int (fst c * SIZE) + real_of_int SIZE / 2,
      real_of_int (snd c * SIZE) + real_of_int SIZE / 2)"

text \<open>What the snap of \<^verbatim>\<open>Enemy.update\<close> does to an agent: \<open>snapped dt e e'\<close> says that \<open>e'\<close>
  stands exactly on the centre of its cell, that this cell is the node of its path just
  before its next index, and that the node was within the frame's travel distance of the
  position of \<open>e\<close>.\<close>

definition snapped :: "real \<Rightarrow> enemy \<Rightarrow> enemy \<Rightarrow> bool" where
  "snapped dt e e' =
     (e_pos e' = cell_centre (e_cell e')
      \<and> (\<exists>k<length (e_path e'). e_path e' ! k = e_cell e' \<and> e_next_idx e' = Suc k)
      \<and> hypot (fst (cell_centre (e_cell e')) - fst (e_pos e))
               (snd (cell_centre (e_cell e')) - snd (e_pos e))
           \<le> real_of_int (e_speed_px e) * dt)"

text \<open>Example data: a pink agent of cell \<open>(5, 5)\<close> half way to the next node \<open>(6, 5)\<close> of its
  path, the same agent arrived at that node, the initial state with the agent in it, and a
  frame of a twentieth of a second without events and without a spawn, in which the head
  takes no step and the agent arrives at the node.\<close>

definition walking_agent :: enemy where
  "walking_agent =
     \<lparr>e_name = ''pink'', e_hp = 1, e_speed_px = 300, e_color = (255, 105, 180),
      e_cell = (5, 5), e_pos = (120, 110), e_path = [(5, 5), (6, 5)], e_next_idx = 1,
      e_repath_timer = 0.25, e_size = 18\<rparr>"

definition arrived_agent :: enemy where
  "arrived_agent =
     walking_agent\<lparr>e_repath_timer := 1 / 5, e_pos := (130, 110), e_cell := (6, 5),
                   e_next_idx := 2\<rparr>"

definition walk_scene :: game where
  "walk_scene = (init_game (0, 0))\<lparr>enemies := [walking_agent]\<rparr>"

definition walk_frame :: frame_input where
  "walk_frame =
     \<lparr>in_dt = 0.05, in_now = 1, in_events = [], in_apples = [],
      in_side = Top, in_rnd = 0, in_kind = 0\<rparr>"

definition walk_scene_after :: game where
  "walk_scene_after =
     walk_scene\<lparr>progress := 3 / 4, x_px := 395, path_pts := [(400, 400), (395, 400)],
                enemies := [arrived_agent]\<rparr>"

section \<open>Correctness of the pathfinder\<close>

lemma hypot_axis: "hypot dx 0 = \<bar>dx\<bar>"
  by (simp add: hypot_def)


lemma astar_h_consistent: "adjacent4 c n \<Longrightarrow> astar_h goal c \<le> Suc (astar_h goal n)"
  by (cases c; cases n; cases goal) (auto simp: adjacent4_def astar_h_def)

lemma entry_le_fst: "(a, x) \<le> (b, y) \<Longrightarrow> a \<le> (b::nat)"
  for x y :: "nat \<times> cell"
  by (auto simp: less_eq_prod_def)

lemma walk_snoc: "walk goal blocked (xs @ [a]) \<Longrightarrow> step_ok goal blocked a b
  \<Longrightarrow> walk goal blocked (xs @ [a, b])"
proof (induction xs rule: walk.induct[of _ goal blocked])
  case (1 goal blocked)
  then show ?case by simp
next
  case (2 goal blocked a)
  then show ?case by simp
next
  case (3 goal blocked a b cs)
  then show ?case by simp
qed

lemma walk_reach:
  "walk goal blocked p \<Longrightarrow> p \<noteq> [] \<Longrightarrow> reach start goal blocked k (hd p)
   \<Longrightarrow> reach start goal blocked (k + length p - 1) (last p)"
proof (induction p arbitrary: k)
  case Nil
  then show ?case by simp
next
  case (Cons a p)
  show ?case
  proof (cases p)
    case Nil
    with Cons.prems show ?thesis by simp
  next
    case (Cons b cs)
    with Cons.prems have s: "step_ok goal blocked a b" and w: "walk goal blocked p"
      and r: "reach start goal blocked k a"
      by simp_all
    have h: "reach start goal blocked (Suc k) (hd p)"
      using r s Cons by (simp add: reach_step)
    have ne: "p \<noteq> []"
      using Cons by simp
    have "reach start goal blocked (Suc k + length p - 1) (last p)"
      by (rule Cons.IH [OF w ne h])
    then show ?thesis
      using ne by simp
  qed
qed

lemma grid_path_reach:
  "grid_path start goal blocked p \<Longrightarrow> reach start goal blocked (length p - 1) goal"
  using walk_reach [of goal blocked p start 0]
  by (auto simp: grid_path_def reach_start)

lemma card_grid: "card grid = 1600"
  by (simp add: grid_def CELLS_def RES_def SIZE_def)

lemma card_visited_le: "finite V \<Longrightarrow> V \<subseteq> grid \<Longrightarrow> card V \<le> 1600"
  using card_mono [of grid V] finite_grid card_grid by simp

lemma g_sound_start: "g_sound start goal blocked g V \<Longrightarrow> g start = Some 0"
  unfolding g_sound_def by blast

lemma g_sound_reach: "g_sound start goal blocked g V \<Longrightarrow> g n = Some v \<Longrightarrow> reach start goal blocked v n"
  unfolding g_sound_def by blast

lemma g_sound_card: "g_sound start goal blocked g V \<Longrightarrow> g n = Some v \<Longrightarrow> v \<le> card V"
  unfolding g_sound_def by blast

lemma open_ok_entry:
  "open_ok goal openh g \<Longrightarrow> (f, gc, c) \<in> set openh
   \<Longrightarrow> f = gc + astar_h goal c \<and> in_grid c \<and> (\<exists>v. g c = Some v \<and> v \<le> gc)"
  unfolding open_ok_def by blast

lemma open_has_entry:
  "open_has goal openh g V \<Longrightarrow> g n = Some v \<Longrightarrow> n \<notin> V \<Longrightarrow> (v + astar_h goal n, v, n) \<in> set openh"
  unfolding open_has_def by blast

lemma closed_opt_le:
  "closed_opt start goal blocked g V \<Longrightarrow> c \<in> V
   \<Longrightarrow> \<exists>v. g c = Some v \<and> (\<forall>k. reach start goal blocked k c \<longrightarrow> v \<le> k)"
  unfolding closed_opt_def by blast

lemma frontier:
  assumes "reach start goal blocked k c" and "c \<notin> V"
    and "g start = Some 0"
    and "closed_opt start goal blocked g V" and "closed_edges goal blocked g V"
  shows "\<exists>n w. n \<notin> V \<and> g n = Some w \<and> w + astar_h goal n \<le> k + astar_h goal c"
  using assms(1,2)
proof (induction rule: reach.induct)
  case reach_start
  then show ?case
    using assms(3) by (intro exI [of _ start] exI [of _ 0]) simp
next
  case (reach_step k c n)
  have hc: "astar_h goal c \<le> Suc (astar_h goal n)"
    using reach_step.hyps(2) astar_h_consistent by (simp add: step_ok_def)
  show ?case
  proof (cases "c \<in> V")
    case True
    then obtain v where v: "g c = Some v" "v \<le> k"
      using assms(4) reach_step.hyps(1) by (auto simp: closed_opt_def)
    then obtain w where "g n = Some w" "w \<le> Suc v"
      using assms(5) True reach_step.hyps(2) unfolding closed_edges_def by blast
    then show ?thesis
      using reach_step.prems v by (intro exI [of _ n] exI [of _ w]) simp
  next
    case False
    then obtain m w where "m \<notin> V" "g m = Some w" "w + astar_h goal m \<le> k + astar_h goal c"
      using reach_step.IH by blast
    then show ?thesis
      using hc by (intro exI [of _ m] exI [of _ w]) simp
  qed
qed

lemma came_ok_Some:
  "came_ok start goal blocked came g V \<Longrightarrow> came n = Some p
   \<Longrightarrow> p \<in> V \<and> step_ok goal blocked p n \<and> (\<exists>v. g p = Some v \<and> g n = Some (Suc v))"
  unfolding came_ok_def by blast

lemma came_ok_None:
  "came_ok start goal blocked came g V \<Longrightarrow> came n = None \<Longrightarrow> g n = None \<or> n = start"
  unfolding came_ok_def by blast

lemma reconstruct_correct:
  assumes "came_ok start goal blocked came g V" and "g start = Some 0"
  shows "g c = Some v \<Longrightarrow>
    \<exists>q. reconstruct came c path = Some (q @ rev path) \<and> length q = v
       \<and> walk goal blocked (q @ [c]) \<and> hd (q @ [c]) = start"
proof (induction v arbitrary: c path)
  case 0
  have cn: "came c = None"
  proof (cases "came c")
    case None
    then show ?thesis .
  next
    case (Some p)
    then show ?thesis
      using came_ok_Some [OF assms(1) Some] 0 by auto
  qed
  have "c = start"
    using came_ok_None [OF assms(1) cn] 0 by simp
  then show ?case
    using cn by (subst reconstruct.simps) simp
next
  case (Suc v)
  show ?case
  proof (cases "came c")
    case None
    then have "c = start"
      using came_ok_None [OF assms(1) None] Suc.prems by simp
    then show ?thesis using assms(2) Suc.prems by simp
  next
    case (Some p)
    then have p: "step_ok goal blocked p c" "g p = Some v"
      using came_ok_Some [OF assms(1) Some] Suc.prems by auto
    obtain q where q: "reconstruct came p (path @ [p]) = Some (q @ rev (path @ [p]))"
      "length q = v" "walk goal blocked (q @ [p])" "hd (q @ [p]) = start"
      using Suc.IH [OF p(2)] by blast
    have "reconstruct came c path = Some ((q @ [p]) @ rev path)"
      using Some q(1) by (subst reconstruct.simps) simp
    moreover have "walk goal blocked ((q @ [p]) @ [c])"
      using walk_snoc [OF q(3) p(1)] by simp
    moreover have "hd ((q @ [p]) @ [c]) = start"
      using q(4) by (cases q) simp_all
    ultimately show ?thesis
      using q(2) by (intro exI [of _ "q @ [p]"]) simp
  qed
qed

lemma dirs_adjacent: "d \<in> set dirs \<Longrightarrow> adjacent4 c (fst c + fst d, snd c + snd d)"
  by (auto simp: dirs_def adjacent4_def)

lemma adjacent_dirs: "adjacent4 c n \<Longrightarrow> \<exists>d\<in>set dirs. n = (fst c + fst d, snd c + snd d)"
proof -
  assume a: "adjacent4 c n"
  obtain cx cy nx ny where e: "c = (cx, cy)" "n = (nx, ny)"
    by (cases c, cases n) blast
  from a e have "\<bar>cx - nx\<bar> + \<bar>cy - ny\<bar> = 1"
    by (simp add: adjacent4_def)
  then have "(nx = cx + 1 \<and> ny = cy) \<or> (nx = cx - 1 \<and> ny = cy)
      \<or> (nx = cx \<and> ny = cy + 1) \<or> (nx = cx \<and> ny = cy - 1)"
    by arith
  then show ?thesis
    using e by (auto simp: dirs_def)
qed

lemma g_get_Some: "g n = Some v \<Longrightarrow> g_get g n = v"
  by (simp add: g_get_def)

lemma g_get_None: "g n = None \<Longrightarrow> g_get g n = 1000000000"
  by (simp add: g_get_def)

lemma neighbor_skip:
  assumes "\<not> (in_grid (fst c + fst d, snd c + snd d)
            \<and> \<not> ((fst c + fst d, snd c + snd d) \<in> blocked \<and> (fst c + fst d, snd c + snd d) \<noteq> goal)
            \<and> Suc gc < g_get g (fst c + fst d, snd c + snd d))"
  shows "astar_neighbor goal blocked c gc d (openh, came, g) = (openh, came, g)"
  using assms by (auto simp: astar_neighbor_def Let_def)

lemma neighbor_push:
  assumes "in_grid n" "\<not> (n \<in> blocked \<and> n \<noteq> goal)" "Suc gc < g_get g n"
    and "n = (fst c + fst d, snd c + snd d)"
  shows "astar_neighbor goal blocked c gc d (openh, came, g)
         = ((Suc gc + astar_h goal n, Suc gc, n) # openh, came(n \<mapsto> c), g(n \<mapsto> Suc gc))"
  using assms by (auto simp: astar_neighbor_def Let_def heappush_def)

lemma neighbor_step:
  assumes core: "inv_core start goal blocked openh came g V"
    and c: "c \<in> V" "g c = Some gc" "Suc gc \<le> card V"
    and d: "d \<in> set dirs"
    and res: "astar_neighbor goal blocked c gc d (openh, came, g) = (openh', came', g')"
  shows "inv_core start goal blocked openh' came' g' V \<and> g_mono g g' \<and> g' c = Some gc
    \<and> (step_ok goal blocked c (fst c + fst d, snd c + snd d)
        \<longrightarrow> (\<exists>w. g' (fst c + fst d, snd c + snd d) = Some w \<and> w \<le> Suc gc))"
proof -
  define n where "n = (fst c + fst d, snd c + snd d)"
  from core have gs: "g_sound start goal blocked g V" and oo: "open_ok goal openh g"
    and oh: "open_has goal openh g V" and co: "closed_opt start goal blocked g V"
    and ca: "came_ok start goal blocked came g V" and fin: "finite V" "V \<subseteq> grid"
    by (simp_all add: inv_core_def)
  have small: "Suc gc < 1000000000"
    using c(3) card_visited_le [OF fin] by simp
  show ?thesis
  proof (cases "in_grid n \<and> \<not> (n \<in> blocked \<and> n \<noteq> goal) \<and> Suc gc < g_get g n")
    case False
    then have same: "openh' = openh" "came' = came" "g' = g"
      using res neighbor_skip [of c d blocked goal gc g openh came] by (simp_all add: n_def)
    have "\<exists>w. g n = Some w \<and> w \<le> Suc gc" if "step_ok goal blocked c n"
    proof -
      from that False have le: "g_get g n \<le> Suc gc"
        by (auto simp: step_ok_def)
      show ?thesis
      proof (cases "g n")
        case None
        then show ?thesis using le small by (simp add: g_get_None)
      next
        case (Some w)
        then show ?thesis using le by (simp add: g_get_Some)
      qed
    qed
    then show ?thesis
      using same core c(2) by (simp add: g_mono_def n_def)
  next
    case True
    then have push: "openh' = (Suc gc + astar_h goal n, Suc gc, n) # openh"
      "came' = came(n \<mapsto> c)" "g' = g(n \<mapsto> Suc gc)"
      using res neighbor_push [of n blocked goal gc g c d openh came] by (simp_all add: n_def)
    have st: "step_ok goal blocked c n"
      using True dirs_adjacent [OF d, of c] by (auto simp: step_ok_def n_def)
    have rc: "reach start goal blocked gc c"
      using gs c(2) by (rule g_sound_reach)
    have rn: "reach start goal blocked (Suc gc) n"
      using rc st by (rule reach_step)
    have lt: "Suc gc < v" if "g n = Some v" for v
      using True that by (simp add: g_get_Some)
    have nV: "n \<notin> V"
    proof
      assume "n \<in> V"
      then obtain v where "g n = Some v" "v \<le> Suc gc"
        using closed_opt_le [OF co] rn by blast
      then show False using lt by fastforce
    qed
    have ns: "n \<noteq> start"
      using g_sound_start [OF gs] lt by fastforce
    have nc: "n \<noteq> c"
      using nV c(1) by blast
    have 1: "g_sound start goal blocked g' V"
      unfolding g_sound_def push
      using g_sound_start [OF gs] g_sound_reach [OF gs] g_sound_card [OF gs] ns rn c(3)
      by (simp del: split_paired_All)
    have 2: "open_ok goal openh' g'"
      unfolding open_ok_def push
    proof (intro allI impI)
      fix f gc' c'
      assume a: "(f, gc', c') \<in> set ((Suc gc + astar_h goal n, Suc gc, n) # openh)"
      show "f = gc' + astar_h goal c' \<and> in_grid c' \<and> (\<exists>v. (g(n \<mapsto> Suc gc)) c' = Some v \<and> v \<le> gc')"
      proof (cases "(f, gc', c') = (Suc gc + astar_h goal n, Suc gc, n)")
        case True
        then show ?thesis using \<open>in_grid n \<and> _\<close> by simp
      next
        case False
        then have "(f, gc', c') \<in> set openh" using a by auto
        then have o: "f = gc' + astar_h goal c'" "in_grid c'" "\<exists>v. g c' = Some v \<and> v \<le> gc'"
          using open_ok_entry [OF oo] by blast+
        show ?thesis
        proof (cases "c' = n")
          case True
          then show ?thesis using o lt by fastforce
        next
          case False
          then show ?thesis using o by simp
        qed
      qed
    qed
    have 3: "open_has goal openh' g' V"
      unfolding open_has_def push
      using open_has_entry [OF oh] by (simp del: split_paired_All)
    have 4: "closed_opt start goal blocked g' V"
      unfolding closed_opt_def push
    proof
      fix c' assume "c' \<in> V"
      then show "\<exists>v. (g(n \<mapsto> Suc gc)) c' = Some v \<and> (\<forall>k. reach start goal blocked k c' \<longrightarrow> v \<le> k)"
        using closed_opt_le [OF co, of c'] nV by auto
    qed
    have 5: "came_ok start goal blocked came' g' V"
      unfolding came_ok_def push
    proof (rule conjI; intro allI impI)
      fix m p
      assume a: "(came(n \<mapsto> c)) m = Some p"
      show "p \<in> V \<and> step_ok goal blocked p m
        \<and> (\<exists>v. (g(n \<mapsto> Suc gc)) p = Some v \<and> (g(n \<mapsto> Suc gc)) m = Some (Suc v))"
      proof (cases "m = n")
        case True
        then show ?thesis using a c(1,2) st nc by simp
      next
        case False
        then have "came m = Some p" using a by simp
        from came_ok_Some [OF ca this] show ?thesis
          using False nV by auto
      qed
    next
      fix m
      assume a: "(came(n \<mapsto> c)) m = None"
      then have "m \<noteq> n" by (auto split: if_splits)
      then show "(g(n \<mapsto> Suc gc)) m = None \<or> m = start"
        using a came_ok_None [OF ca, of m] by simp
    qed
    have 6: "g_mono g g'"
      unfolding g_mono_def push using lt by (auto intro: less_imp_le)
    have 7: "g' c = Some gc"
      using push c(2) nc by simp
    have 8: "\<exists>w. g' n = Some w \<and> w \<le> Suc gc"
      using push by simp
    show ?thesis
      using 1 2 3 4 5 6 7 8 fin by (simp add: inv_core_def n_def)
  qed
qed

lemma g_mono_refl: "g_mono g g"
  by (simp add: g_mono_def)

lemma g_mono_trans: "g_mono g g1 \<Longrightarrow> g_mono g1 g2 \<Longrightarrow> g_mono g g2"
  unfolding g_mono_def by (meson le_trans)

lemma g_mono_le: "g_mono g g' \<Longrightarrow> g n = Some w \<Longrightarrow> w \<le> b \<Longrightarrow> \<exists>w'. g' n = Some w' \<and> w' \<le> b"
  unfolding g_mono_def by (meson le_trans)

lemma fold_neighbors:
  assumes c: "c \<in> V" "Suc gc \<le> card V"
  shows "inv_core start goal blocked openh came g V \<Longrightarrow> g c = Some gc \<Longrightarrow> set ds \<subseteq> set dirs
    \<Longrightarrow> fold (astar_neighbor goal blocked c gc) ds (openh, came, g) = (openh', came', g')
    \<Longrightarrow> inv_core start goal blocked openh' came' g' V \<and> g_mono g g' \<and> g' c = Some gc
      \<and> (\<forall>d\<in>set ds. step_ok goal blocked c (fst c + fst d, snd c + snd d)
            \<longrightarrow> (\<exists>w. g' (fst c + fst d, snd c + snd d) = Some w \<and> w \<le> Suc gc))"
proof (induction ds arbitrary: openh came g)
  case Nil
  then show ?case by (simp add: g_mono_refl)
next
  case (Cons d ds)
  obtain o1 c1 g1 where s: "astar_neighbor goal blocked c gc d (openh, came, g) = (o1, c1, g1)"
    by (metis prod_cases3)
  have d: "d \<in> set dirs" and ds: "set ds \<subseteq> set dirs"
    using Cons.prems(3) by simp_all
  from neighbor_step [OF Cons.prems(1) c(1) Cons.prems(2) c(2) d s]
  have 1: "inv_core start goal blocked o1 c1 g1 V" and 2: "g_mono g g1" and 3: "g1 c = Some gc"
    and 4: "step_ok goal blocked c (fst c + fst d, snd c + snd d)
        \<longrightarrow> (\<exists>w. g1 (fst c + fst d, snd c + snd d) = Some w \<and> w \<le> Suc gc)"
    by simp_all
  have f: "fold (astar_neighbor goal blocked c gc) ds (o1, c1, g1) = (openh', came', g')"
    using Cons.prems(4) s by simp
  from Cons.IH [OF 1 3 ds f]
  have 5: "inv_core start goal blocked openh' came' g' V" and 6: "g_mono g1 g'"
    and 7: "g' c = Some gc"
    and 8: "\<forall>d\<in>set ds. step_ok goal blocked c (fst c + fst d, snd c + snd d)
            \<longrightarrow> (\<exists>w. g' (fst c + fst d, snd c + snd d) = Some w \<and> w \<le> Suc gc)"
    by simp_all
  have 9: "step_ok goal blocked c (fst c + fst d, snd c + snd d)
        \<longrightarrow> (\<exists>w. g' (fst c + fst d, snd c + snd d) = Some w \<and> w \<le> Suc gc)"
    using 4 g_mono_le [OF 6] by blast
  show ?case
    using 5 g_mono_trans [OF 2 6] 7 8 9 by simp
qed

lemma heappop_min:
  assumes "openh \<noteq> []" and "heappop openh = (e, openh1)"
  shows "e \<in> set openh" and "openh1 = remove1 e openh" and "\<forall>x\<in>set openh. e \<le> x"
proof -
  have e: "e = Min (set openh)" and r: "openh1 = remove1 e openh"
    using assms(2) by (auto simp: heappop_def Let_def)
  show "e \<in> set openh"
    unfolding e using assms(1) by (intro Min_in) auto
  show "openh1 = remove1 e openh" by (rule r)
  show "\<forall>x\<in>set openh. e \<le> x"
    unfolding e by (auto intro: Min_le)
qed

lemma pop_facts:
  assumes inv: "astar_inv start goal blocked openh came g V"
    and ne: "openh \<noteq> []" and pop: "heappop openh = (e, openh1)"
    and cV: "snd (snd e) \<notin> V"
  shows "in_grid (snd (snd e))" and "g (snd (snd e)) = Some (fst (snd e))"
    and "\<forall>k. reach start goal blocked k (snd (snd e)) \<longrightarrow> fst (snd e) \<le> k"
proof -
  obtain f gc c where e: "e = (f, gc, c)"
    by (cases e) auto
  from inv have core: "inv_core start goal blocked openh came g V"
    and ed: "closed_edges goal blocked g V"
    by (simp_all add: astar_inv_def)
  from core have gs: "g_sound start goal blocked g V" and oo: "open_ok goal openh g"
    and oh: "open_has goal openh g V" and co: "closed_opt start goal blocked g V"
    by (simp_all add: inv_core_def)
  have mem: "(f, gc, c) \<in> set openh" and least: "\<forall>x\<in>set openh. (f, gc, c) \<le> x"
    using heappop_min [OF ne pop] e by simp_all
  have cV': "c \<notin> V" using cV e by simp
  from open_ok_entry [OF oo mem] obtain v where
    f: "f = gc + astar_h goal c" and ig: "in_grid c" and v: "g c = Some v" "v \<le> gc"
    by blast
  have "(v + astar_h goal c, v, c) \<in> set openh"
    using open_has_entry [OF oh v(1) cV'] .
  then have "(f, gc, c) \<le> (v + astar_h goal c, v, c)"
    using least by blast
  then have "f \<le> v + astar_h goal c"
    by (rule entry_le_fst)
  then have gv: "gc = v"
    using f v(2) by simp
  have opt: "gc \<le> k" if "reach start goal blocked k c" for k
  proof -
    from frontier [OF that cV' g_sound_start [OF gs] co ed]
    obtain n w where n: "n \<notin> V" "g n = Some w" "w + astar_h goal n \<le> k + astar_h goal c"
      by blast
    have "(w + astar_h goal n, w, n) \<in> set openh"
      using open_has_entry [OF oh n(2) n(1)] .
    then have "(f, gc, c) \<le> (w + astar_h goal n, w, n)"
      using least by blast
    then have "f \<le> w + astar_h goal n"
      by (rule entry_le_fst)
    then show ?thesis
      using f n(3) by simp
  qed
  show "in_grid (snd (snd e))" using ig e by simp
  show "g (snd (snd e)) = Some (fst (snd e))" using v(1) gv e by simp
  show "\<forall>k. reach start goal blocked k (snd (snd e)) \<longrightarrow> fst (snd e) \<le> k"
    using opt e by simp
qed

lemma stale_inv:
  assumes inv: "astar_inv start goal blocked openh came g V"
    and ne: "openh \<noteq> []" and pop: "heappop openh = (e, openh1)"
    and cV: "snd (snd e) \<in> V"
  shows "astar_inv start goal blocked openh1 came g V"
proof -
  from inv have core: "inv_core start goal blocked openh came g V"
    by (simp add: astar_inv_def)
  from core have oo: "open_ok goal openh g" and oh: "open_has goal openh g V"
    by (simp_all add: inv_core_def)
  have r: "openh1 = remove1 e openh"
    using heappop_min [OF ne pop] by simp
  have 1: "open_ok goal openh1 g"
    unfolding open_ok_def r
    using open_ok_entry [OF oo] notin_set_remove1 by (metis (no_types, lifting))
  have 2: "open_has goal openh1 g V"
    unfolding open_has_def r
  proof (intro allI impI)
    fix n v assume a: "g n = Some v \<and> n \<notin> V"
    then have "(v + astar_h goal n, v, n) \<in> set openh"
      using open_has_entry [OF oh] by blast
    moreover have "(v + astar_h goal n, v, n) \<noteq> e"
      using a cV by auto
    ultimately show "(v + astar_h goal n, v, n) \<in> set (remove1 e openh)"
      by simp
  qed
  show ?thesis
    using inv 1 2 by (simp add: astar_inv_def inv_core_def)
qed

lemma expand_inv:
  assumes inv: "astar_inv start goal blocked openh came g V"
    and ne: "openh \<noteq> []" and pop: "heappop openh = (e, openh1)"
    and cV: "snd (snd e) \<notin> V" and cg: "snd (snd e) \<noteq> goal"
    and fo: "fold (astar_neighbor goal blocked (snd (snd e)) (fst (snd e))) dirs (openh1, came, g)
             = (openh2, came2, g2)"
  shows "astar_inv start goal blocked openh2 came2 g2 (insert (snd (snd e)) V)"
proof -
  define c where "c = snd (snd e)"
  define gc where "gc = fst (snd e)"
  from inv have core: "inv_core start goal blocked openh came g V"
    and ed: "closed_edges goal blocked g V" and gV: "goal \<notin> V"
    by (simp_all add: astar_inv_def)
  from core have gs: "g_sound start goal blocked g V" and oo: "open_ok goal openh g"
    and oh: "open_has goal openh g V" and co: "closed_opt start goal blocked g V"
    and ca: "came_ok start goal blocked came g V" and fin: "finite V" "V \<subseteq> grid"
    by (simp_all add: inv_core_def)
  have ig: "in_grid c" and gcv: "g c = Some gc"
    and opt: "\<forall>k. reach start goal blocked k c \<longrightarrow> gc \<le> k"
    using pop_facts [OF inv ne pop cV] by (simp_all add: c_def gc_def)
  have cV': "c \<notin> V" using cV by (simp add: c_def)
  have r: "openh1 = remove1 e openh"
    using heappop_min [OF ne pop] by simp
  have card: "card (insert c V) = Suc (card V)"
    using fin(1) cV' by simp
  have 1: "g_sound start goal blocked g (insert c V)"
    unfolding g_sound_def card
    using g_sound_start [OF gs] g_sound_reach [OF gs] g_sound_card [OF gs]
    by (meson le_SucI)
  have 2: "open_ok goal openh1 g"
    unfolding open_ok_def r
    using open_ok_entry [OF oo] notin_set_remove1 by (metis (no_types, lifting))
  have 3: "open_has goal openh1 g (insert c V)"
    unfolding open_has_def r
  proof (intro allI impI)
    fix n v assume a: "g n = Some v \<and> n \<notin> insert c V"
    then have "(v + astar_h goal n, v, n) \<in> set openh"
      using open_has_entry [OF oh] by blast
    moreover have "(v + astar_h goal n, v, n) \<noteq> e"
      using a by (auto simp: c_def)
    ultimately show "(v + astar_h goal n, v, n) \<in> set (remove1 e openh)"
      by simp
  qed
  have 4: "closed_opt start goal blocked g (insert c V)"
    unfolding closed_opt_def
    using closed_opt_le [OF co] gcv opt by blast
  have 5: "came_ok start goal blocked came g (insert c V)"
    unfolding came_ok_def
    using came_ok_Some [OF ca] came_ok_None [OF ca] by blast
  have 6: "finite (insert c V)" "insert c V \<subseteq> grid"
    using fin ig in_grid_iff by simp_all
  have core1: "inv_core start goal blocked openh1 came g (insert c V)"
    using 1 2 3 4 5 6 by (simp add: inv_core_def)
  have sgc: "Suc gc \<le> card (insert c V)"
    using g_sound_card [OF gs gcv] card by simp
  have fo': "fold (astar_neighbor goal blocked c gc) dirs (openh1, came, g) = (openh2, came2, g2)"
    using fo by (simp add: c_def gc_def)
  from fold_neighbors [OF _ sgc core1 gcv _ fo']
  have core2: "inv_core start goal blocked openh2 came2 g2 (insert c V)"
    and mono: "g_mono g g2" and g2c: "g2 c = Some gc"
    and nb: "\<forall>d\<in>set dirs. step_ok goal blocked c (fst c + fst d, snd c + snd d)
            \<longrightarrow> (\<exists>w. g2 (fst c + fst d, snd c + snd d) = Some w \<and> w \<le> Suc gc)"
    by simp_all
  from core2 have gs2: "g_sound start goal blocked g2 (insert c V)"
    by (simp add: inv_core_def)
  have ed2: "closed_edges goal blocked g2 (insert c V)"
    unfolding closed_edges_def
  proof (intro ballI allI impI)
    fix c' n v
    assume c': "c' \<in> insert c V" and a: "step_ok goal blocked c' n \<and> g2 c' = Some v"
    show "\<exists>w. g2 n = Some w \<and> w \<le> Suc v"
    proof (cases "c' = c")
      case True
      then have "adjacent4 c n" using a by (simp add: step_ok_def)
      then obtain d where "d \<in> set dirs" "n = (fst c + fst d, snd c + snd d)"
        using adjacent_dirs by blast
      then show ?thesis
        using nb a True g2c by auto
    next
      case False
      then have c'V: "c' \<in> V" using c' by simp
      then obtain v0 where v0: "g c' = Some v0" "\<forall>k. reach start goal blocked k c' \<longrightarrow> v0 \<le> k"
        using closed_opt_le [OF co] by blast
      have "v0 \<le> v"
        using v0(2) g_sound_reach [OF gs2] a by blast
      moreover obtain w where "g n = Some w" "w \<le> Suc v0"
        using ed c'V a v0(1) unfolding closed_edges_def by blast
      ultimately have "\<exists>w. g n = Some w \<and> w \<le> Suc v"
        by auto
      then show ?thesis
        using g_mono_le [OF mono] by blast
    qed
  qed
  show ?thesis
    using core2 ed2 gV cg by (simp add: astar_inv_def c_def)
qed

lemma init_inv:
  assumes "in_grid start"
  shows "astar_inv start goal blocked (heappush [] (astar_h goal start, 0, start))
           Map.empty [start \<mapsto> 0] {}"
proof -
  have "g_sound start goal blocked [start \<mapsto> 0] {}"
    unfolding g_sound_def by (auto simp: reach_start split: if_splits)
  moreover have "open_ok goal (heappush [] (astar_h goal start, 0, start)) [start \<mapsto> 0]"
    unfolding open_ok_def heappush_def using assms by auto
  moreover have "open_has goal (heappush [] (astar_h goal start, 0, start)) [start \<mapsto> 0] {}"
    unfolding open_has_def heappush_def by (auto split: if_splits)
  moreover have "closed_opt start goal blocked [start \<mapsto> 0] {}"
    unfolding closed_opt_def by simp
  moreover have "came_ok start goal blocked Map.empty [start \<mapsto> 0] {}"
    unfolding came_ok_def by (auto split: if_splits)
  moreover have "closed_edges goal blocked [start \<mapsto> 0] {}"
    unfolding closed_edges_def by simp
  ultimately show ?thesis
    by (simp add: astar_inv_def inv_core_def)
qed

lemma astar_loop_correct:
  "astar_inv start goal blocked openh came g V \<Longrightarrow>
   (if \<exists>k. reach start goal blocked k goal
    then \<exists>p. astar_loop start goal blocked openh came g V = Some p
           \<and> hd p = start \<and> last p = goal \<and> p \<noteq> [] \<and> walk goal blocked p
           \<and> (\<forall>k. reach start goal blocked k goal \<longrightarrow> length p \<le> Suc k)
    else astar_loop start goal blocked openh came g V = Some [start])"
proof (induction start goal blocked openh came g V rule: astar_loop.induct)
  case (1 start goal blocked openh came g V)
  note inv = "1.prems"
  from inv have core: "inv_core start goal blocked openh came g V"
    and ed: "closed_edges goal blocked g V" and gV: "goal \<notin> V"
    by (simp_all add: astar_inv_def)
  from core have gs: "g_sound start goal blocked g V" and oo: "open_ok goal openh g"
    and oh: "open_has goal openh g V" and co: "closed_opt start goal blocked g V"
    and ca: "came_ok start goal blocked came g V"
    by (simp_all add: inv_core_def)
  show ?case
  proof (cases "openh = []")
    case True
    have "\<not> (\<exists>k. reach start goal blocked k goal)"
    proof
      assume "\<exists>k. reach start goal blocked k goal"
      then obtain k where "reach start goal blocked k goal" ..
      from frontier [OF this gV g_sound_start [OF gs] co ed]
      obtain n w where "n \<notin> V" "g n = Some w" by blast
      then show False
        using open_has_entry [OF oh] True by fastforce
    qed
    then show ?thesis
      using True by (subst astar_loop.simps) simp
  next
    case False
    obtain e openh1 where pop: "heappop openh = (e, openh1)"
      by (cases "heappop openh") auto
    define c where "c = snd (snd e)"
    define gc where "gc = fst (snd e)"
    show ?thesis
    proof (cases "c \<in> V")
      case True
      have "astar_inv start goal blocked openh1 came g V"
        using stale_inv [OF inv False pop] True by (simp add: c_def)
      then have IH: "if \<exists>k. reach start goal blocked k goal
         then \<exists>p. astar_loop start goal blocked openh1 came g V = Some p
           \<and> hd p = start \<and> last p = goal \<and> p \<noteq> [] \<and> walk goal blocked p
           \<and> (\<forall>k. reach start goal blocked k goal \<longrightarrow> length p \<le> Suc k)
         else astar_loop start goal blocked openh1 came g V = Some [start]"
        using "1.IH"(1) [OF False pop [symmetric] refl refl] True by (simp add: c_def)
      have "astar_loop start goal blocked openh came g V
            = astar_loop start goal blocked openh1 came g V"
        using False pop True by (subst astar_loop.simps) (simp add: c_def Let_def)
      then show ?thesis using IH by simp
    next
      case cV: False
      have ig: "in_grid c" and gcv: "g c = Some gc"
        and opt: "\<forall>k. reach start goal blocked k c \<longrightarrow> gc \<le> k"
        using pop_facts [OF inv False pop] cV by (simp_all add: c_def gc_def)
      show ?thesis
      proof (cases "c = goal")
        case True
        have rg: "reach start goal blocked gc goal"
          using g_sound_reach [OF gs gcv] True by simp
        from reconstruct_correct [OF ca g_sound_start [OF gs] gcv, of "[c]"]
        obtain q where q: "reconstruct came c [c] = Some (q @ [c])" "length q = gc"
          "walk goal blocked (q @ [c])" "hd (q @ [c]) = start"
          by auto
        have "astar_loop start goal blocked openh came g V = reconstruct came c [c]"
          using False pop cV True by (subst astar_loop.simps) (simp add: c_def Let_def)
        then have "astar_loop start goal blocked openh came g V = Some (q @ [c])"
          using q(1) by simp
        moreover have "\<forall>k. reach start goal blocked k goal \<longrightarrow> length (q @ [c]) \<le> Suc k"
          using opt q(2) True by simp
        ultimately show ?thesis
          using rg q True by auto
      next
        case cg: False
        obtain openh2 came2 g2 where
          fo: "fold (astar_neighbor goal blocked c gc) dirs (openh1, came, g) = (openh2, came2, g2)"
          by (metis prod_cases3)
        have inv2: "astar_inv start goal blocked openh2 came2 g2 (insert c V)"
          using expand_inv [OF inv False pop _ _ fo [unfolded c_def gc_def]] cV cg
          by (simp add: c_def)
        have IH: "if \<exists>k. reach start goal blocked k goal
         then \<exists>p. astar_loop start goal blocked openh2 came2 g2 (insert c V) = Some p
           \<and> hd p = start \<and> last p = goal \<and> p \<noteq> [] \<and> walk goal blocked p
           \<and> (\<forall>k. reach start goal blocked k goal \<longrightarrow> length p \<le> Suc k)
         else astar_loop start goal blocked openh2 came2 g2 (insert c V) = Some [start]"
          using "1.IH"(2) [OF False pop [symmetric] refl refl _ _ fo [unfolded c_def gc_def, symmetric] refl]
            cV cg inv2
          by (simp add: c_def)
        have "astar_loop start goal blocked openh came g V
              = astar_loop start goal blocked openh2 came2 g2 (insert c V)"
          using False pop cV cg fo by (subst astar_loop.simps) (simp add: c_def gc_def Let_def)
        then show ?thesis using IH by simp
      qed
    qed
  qed
qed

lemma reach_grid_path:
  "reach start goal blocked k c \<Longrightarrow>
   \<exists>q. walk goal blocked (q @ [c]) \<and> hd (q @ [c]) = start \<and> length q = k"
proof (induction rule: reach.induct)
  case reach_start
  show ?case by (intro exI [of _ "[]"]) simp
next
  case (reach_step k c n)
  then obtain q where q: "walk goal blocked (q @ [c])" "hd (q @ [c]) = start" "length q = k"
    by blast
  have "walk goal blocked ((q @ [c]) @ [n])"
    using walk_snoc [OF q(1) reach_step.hyps(2)] by simp
  moreover have "hd ((q @ [c]) @ [n]) = start"
    using q(2) by (cases q) simp_all
  ultimately show ?case
    using q(3) by (intro exI [of _ "q @ [c]"]) simp
qed

lemma reach_iff_grid_path:
  assumes "in_grid start"
  shows "(\<exists>k. reach start goal blocked k goal) \<longleftrightarrow> (\<exists>q. grid_path start goal blocked q)"
proof
  assume "\<exists>k. reach start goal blocked k goal"
  then obtain k q where "walk goal blocked (q @ [goal])" "hd (q @ [goal]) = start"
    using reach_grid_path by blast
  then have "grid_path start goal blocked (q @ [goal])"
    using assms by (simp add: grid_path_def)
  then show "\<exists>q. grid_path start goal blocked q" ..
next
  assume "\<exists>q. grid_path start goal blocked q"
  then show "\<exists>k. reach start goal blocked k goal"
    using grid_path_reach by blast
qed

lemma walk_in_grid:
  "walk goal blocked p \<Longrightarrow> p \<noteq> [] \<Longrightarrow> in_grid (hd p) \<Longrightarrow> \<forall>c\<in>set p. in_grid c"
proof (induction goal blocked p rule: walk.induct)
  case (1 goal blocked)
  then show ?case by simp
next
  case (2 goal blocked a)
  then show ?case by simp
next
  case (3 goal blocked a b cs)
  then show ?case by (simp add: step_ok_def)
qed

lemma grid_path_in_grid: "grid_path start goal blocked p \<Longrightarrow> \<forall>c\<in>set p. in_grid c"
  using walk_in_grid [of goal blocked p] by (simp add: grid_path_def)

lemma walk_nth:
  "walk goal blocked p \<Longrightarrow> Suc i < length p \<Longrightarrow> step_ok goal blocked (p ! i) (p ! Suc i)"
proof (induction goal blocked p arbitrary: i rule: walk.induct)
  case (1 goal blocked)
  then show ?case by simp
next
  case (2 goal blocked a)
  then show ?case by simp
next
  case (3 goal blocked a b cs)
  then show ?case by (cases i) simp_all
qed

lemma walk_tl:
  "walk goal blocked p \<Longrightarrow> \<forall>c\<in>set (tl p). in_grid c \<and> (c \<in> blocked \<longrightarrow> c = goal)"
proof (induction goal blocked p rule: walk.induct)
  case (1 goal blocked)
  then show ?case by simp
next
  case (2 goal blocked a)
  then show ?case by simp
next
  case (3 goal blocked a b cs)
  then show ?case by (simp add: step_ok_def)
qed

text \<open>What \<open>astar\<close> returns on in-bounds cells.\<close>

lemma astar_in_grid:
  assumes "in_grid start" and "in_grid goal"
  shows "if \<exists>q. grid_path start goal blocked q
         then \<exists>p. astar start goal blocked = Some p \<and> shortest_grid_path start goal blocked p
         else astar start goal blocked = Some [start]"
proof -
  have a: "astar start goal blocked
           = astar_loop start goal blocked (heappush [] (astar_h goal start, 0, start))
               Map.empty [start \<mapsto> 0] {}"
    using assms by (simp add: astar_def)
  note l = astar_loop_correct [OF init_inv [OF assms(1), of goal blocked]]
  show ?thesis
  proof (cases "\<exists>q. grid_path start goal blocked q")
    case True
    then have r: "\<exists>k. reach start goal blocked k goal"
      using reach_iff_grid_path [OF assms(1)] by simp
    with l obtain p where p: "astar start goal blocked = Some p" "hd p = start" "last p = goal"
      "p \<noteq> []" "walk goal blocked p" "\<forall>k. reach start goal blocked k goal \<longrightarrow> length p \<le> Suc k"
      unfolding a by auto
    have gp: "grid_path start goal blocked p"
      using p assms(1) by (simp add: grid_path_def)
    have "length p \<le> length q" if "grid_path start goal blocked q" for q
    proof -
      have "reach start goal blocked (length q - 1) goal"
        using that by (rule grid_path_reach)
      then have "length p \<le> Suc (length q - 1)"
        using p(6) by blast
      moreover have "q \<noteq> []" using that by (simp add: grid_path_def)
      ultimately show ?thesis by (cases q) simp_all
    qed
    then have "shortest_grid_path start goal blocked p"
      using gp by (simp add: shortest_grid_path_def)
    then show ?thesis using p(1) True by auto
  next
    case False
    then have "\<not> (\<exists>k. reach start goal blocked k goal)"
      using reach_iff_grid_path [OF assms(1)] by simp
    with l have "astar start goal blocked = Some [start]"
      unfolding a by simp
    then show ?thesis using False by simp
  qed
qed

lemma astar_head:
  assumes "in_grid start" and "in_grid goal"
  shows "\<exists>p. astar start goal blocked = Some p \<and> p \<noteq> [] \<and> hd p = start \<and> (\<forall>c\<in>set p. in_grid c)"
proof (cases "\<exists>q. grid_path start goal blocked q")
  case True
  then obtain p where "astar start goal blocked = Some p" "grid_path start goal blocked p"
    using astar_in_grid [OF assms, of blocked] by (auto simp: shortest_grid_path_def)
  then show ?thesis
    using grid_path_in_grid [of start goal blocked p] by (auto simp: grid_path_def)
next
  case False
  then show ?thesis
    using astar_in_grid [OF assms, of blocked] assms(1) by simp
qed

lemma enclosed_no_path: "\<not> (\<exists>q. grid_path (0, 0) (2, 0) {(1, 0), (0, 1)} q)"
proof
  assume "\<exists>q. grid_path (0, 0) (2, 0) {(1, 0), (0, 1)} q"
  then obtain q where q: "grid_path (0, 0) (2, 0) {(1, 0), (0, 1)} q" ..
  show False
  proof (cases q)
    case Nil
    then show ?thesis using q by (simp add: grid_path_def)
  next
    case (Cons a r)
    note c1 = Cons
    show ?thesis
    proof (cases r)
      case Nil
      then show ?thesis using q c1 by (auto simp: grid_path_def)
    next
      case (Cons b r')
      then have "step_ok (2, 0) {(1, 0), (0, 1)} (0, 0) b"
        using q c1 by (auto simp: grid_path_def)
      then show ?thesis
        by (cases b) (auto simp: step_ok_def adjacent4_def in_grid_def)
    qed
  qed
qed


text \<open>Claim C3. For an in-bounds start, an in-bounds goal and any blocked set: if some grid
  path from the start to the goal exists, \<open>astar\<close> returns a sequence that begins with the
  start, ends with the goal, moves by steps between 4-adjacent in-bounds cells that avoid
  the blocked set (the goal excepted), and is no longer than any grid path from the start
  to the goal.\<close>

theorem astar_shortest_path:
  assumes "in_grid start" and "in_grid goal" and "grid_path start goal blocked q"
  shows "\<exists>p. astar start goal blocked = Some p
           \<and> p \<noteq> [] \<and> hd p = start \<and> last p = goal
           \<and> (\<forall>i. Suc i < length p \<longrightarrow> adjacent4 (p ! i) (p ! Suc i))
           \<and> (\<forall>c\<in>set p. in_grid c)
           \<and> (\<forall>c\<in>set (tl p). c \<in> blocked \<longrightarrow> c = goal)
           \<and> grid_path start goal blocked p
           \<and> (\<forall>q'. grid_path start goal blocked q' \<longrightarrow> length p \<le> length q')"
proof -
  have "\<exists>q. grid_path start goal blocked q"
    using assms(3) by blast
  then obtain p where p: "astar start goal blocked = Some p" "shortest_grid_path start goal blocked p"
    using astar_in_grid [OF assms(1,2), of blocked] by auto
  then have gp: "grid_path start goal blocked p"
    and least: "\<forall>q'. grid_path start goal blocked q' \<longrightarrow> length p \<le> length q'"
    by (simp_all add: shortest_grid_path_def)
  have w: "walk goal blocked p"
    using gp by (simp add: grid_path_def)
  have "\<forall>i. Suc i < length p \<longrightarrow> adjacent4 (p ! i) (p ! Suc i)"
    using walk_nth [OF w] by (simp add: step_ok_def)
  moreover have "\<forall>c\<in>set (tl p). c \<in> blocked \<longrightarrow> c = goal"
    using walk_tl [OF w] by (simp add: step_ok_def)
  ultimately show ?thesis
    using p(1) gp least grid_path_in_grid [OF gp] by (auto simp: grid_path_def)
qed

theorem astar_shortest_path_witness:
  "in_grid (0, 0) \<and> in_grid (1, 0) \<and> grid_path (0, 0) (1, 0) {} [(0, 0), (1, 0)]
   \<and> (\<exists>p. astar (0, 0) (1, 0) {} = Some p \<and> shortest_grid_path (0, 0) (1, 0) {} p)"
proof -
  have g: "in_grid (0, 0)" "in_grid (1, 0)"
    by (simp_all add: in_grid_def CELLS_def RES_def SIZE_def)
  have q: "grid_path (0, 0) (1, 0) {} [(0, 0), (1, 0)]"
    using g by (simp add: grid_path_def step_ok_def adjacent4_def)
  from astar_shortest_path [OF g q] obtain p where
    "astar (0, 0) (1, 0) {} = Some p" "grid_path (0, 0) (1, 0) {} p"
    "\<forall>q'. grid_path (0, 0) (1, 0) {} q' \<longrightarrow> length p \<le> length q'"
    by blast
  then have "astar (0, 0) (1, 0) {} = Some p \<and> shortest_grid_path (0, 0) (1, 0) {} p"
    by (simp add: shortest_grid_path_def)
  then show ?thesis
    using g q by blast
qed

text \<open>Claim C4. \<open>astar\<close> fails soft: with the start or the goal outside the grid it returns
  the empty sequence; with both inside and no grid path from the start to the goal it
  returns the one-element sequence of the start. In both cases it returns.\<close>

theorem astar_fails_soft:
  "(\<not> in_grid start \<or> \<not> in_grid goal \<longrightarrow> astar start goal blocked = Some [])
   \<and> (in_grid start \<and> in_grid goal \<and> \<not> (\<exists>q. grid_path start goal blocked q)
        \<longrightarrow> astar start goal blocked = Some [start])"
proof (intro conjI impI)
  assume "\<not> in_grid start \<or> \<not> in_grid goal"
  then show "astar start goal blocked = Some []"
    by (auto simp: astar_def)
next
  assume "in_grid start \<and> in_grid goal \<and> \<not> (\<exists>q. grid_path start goal blocked q)"
  then show "astar start goal blocked = Some [start]"
    using astar_in_grid [of start goal blocked] by simp
qed

theorem astar_fails_soft_witness:
  "astar (40, 0) (0, 0) {} = Some [] \<and> astar (0, 0) (2, 0) {(1, 0), (0, 1)} = Some [(0, 0)]"
proof -
  have a: "\<not> in_grid (40, 0)"
    by (simp add: in_grid_def CELLS_def RES_def SIZE_def)
  have b: "in_grid (0, 0)" "in_grid (2, 0)"
    by (simp_all add: in_grid_def CELLS_def RES_def SIZE_def)
  have "astar (40, 0) (0, 0) {} = Some []"
    using astar_fails_soft [of "(40, 0)" "(0, 0)" "{}"] a by simp
  moreover have "astar (0, 0) (2, 0) {(1, 0), (0, 1)} = Some [(0, 0)]"
    using astar_fails_soft [of "(0, 0)" "(2, 0)" "{(1, 0), (0, 1)}"] b enclosed_no_path by simp
  ultimately show ?thesis by simp
qed

section \<open>The step loop\<close>

lemma move_to_cell_in_grid: "move_to_cell xc yc dx dy = Some c \<Longrightarrow> in_grid c"
  by (auto simp: move_to_cell_def in_grid_def Let_def split: if_splits)

lemma relocate_apple_off_body: "relocate_apple bd draws = Some (a, rest) \<Longrightarrow> a \<notin> set bd"
  by (induction draws) (auto split: if_splits)

lemma snake_step_keeps:
  assumes "snake_step s draws = Some (Inr (brk, s', draws'))"
  shows "counters_ok s \<longrightarrow> counters_ok s'"
    and "in_grid (grid_x s, grid_y s) \<longrightarrow> in_grid (grid_x s', grid_y s')"
    and "enemies s' = enemies s"
proof -
  show "counters_ok s \<longrightarrow> counters_ok s'"
    using assms
    by (auto simp: snake_step_def Let_def counters_ok_def split: option.splits if_splits sum.splits)
  show "in_grid (grid_x s, grid_y s) \<longrightarrow> in_grid (grid_x s', grid_y s')"
    using assms
    by (auto simp: snake_step_def Let_def split: option.splits if_splits sum.splits
        dest: move_to_cell_in_grid)
  show "enemies s' = enemies s"
    using assms
    by (auto simp: snake_step_def Let_def split: option.splits if_splits sum.splits)
qed

lemma snake_steps_keeps:
  "snake_steps s draws = Some (Inr (s', draws')) \<Longrightarrow>
     (counters_ok s \<longrightarrow> counters_ok s')
     \<and> (in_grid (grid_x s, grid_y s) \<longrightarrow> in_grid (grid_x s', grid_y s'))
     \<and> enemies s' = enemies s"
proof (induction s draws rule: snake_steps.induct)
  case (1 s draws)
  show ?case
  proof (cases "1 \<le> progress s \<and> \<not> game_over s")
    case False
    then show ?thesis
      using "1.prems" by (subst (asm) snake_steps.simps) auto
  next
    case True
    from "1.prems" True obtain brk s1 d1 where
      st: "snake_step s draws = Some (Inr (brk, s1, d1))"
      and rest: "if brk then s' = s1 \<and> draws' = d1 else snake_steps s1 d1 = Some (Inr (s', draws'))"
      by (subst (asm) snake_steps.simps) (auto split: option.splits sum.splits if_splits)
    note k = snake_step_keeps [OF st]
    show ?thesis
    proof (cases brk)
      case True
      then show ?thesis using rest k by simp
    next
      case False
      then have "snake_steps s1 d1 = Some (Inr (s', draws'))"
        using rest by simp
      from "1.IH" [OF True st refl refl refl False this] show ?thesis
        using k by simp
    qed
  qed
qed

section \<open>Events and the other phases\<close>

lemma process_event_keeps:
  "process_event s ev = Inr s' \<Longrightarrow>
     length_cells s' = length_cells s \<and> score s' = score s
     \<and> grid_x s' = grid_x s \<and> grid_y s' = grid_y s \<and> enemies s' = enemies s"
  by (auto simp: process_event_def split: event.splits if_splits sum.splits)

lemma process_events_keeps:
  "process_events s evs = Inr s' \<Longrightarrow>
     length_cells s' = length_cells s \<and> score s' = score s
     \<and> grid_x s' = grid_x s \<and> grid_y s' = grid_y s \<and> enemies s' = enemies s"
proof (induction evs arbitrary: s)
  case Nil
  then show ?case by simp
next
  case (Cons ev evs)
  then obtain s1 where a: "process_event s ev = Inr s1" and b: "process_events s1 evs = Inr s'"
    by (auto split: sum.splits)
  from Cons.IH [OF b] process_event_keeps [OF a] show ?case by simp
qed

section \<open>Agents keep to their paths\<close>

lemma enemy_move_at: "agent_at e \<Longrightarrow> agent_at (enemy_move dt e)"
  by (auto simp: agent_at_def enemy_move_def Let_def)

lemma enemy_update_at:
  assumes "in_grid target_cell" and "agent_pre e"
  shows "\<exists>e'. enemy_update dt target_cell blocked_cells e = Some e' \<and> agent_at e'"
proof (cases "e_repath_timer e - dt \<le> 0 \<or> e_path e = []")
  case True
  have g: "in_grid (e_cell e)"
    using assms(2) by (simp add: agent_pre_def)
  obtain p where p: "astar (e_cell e) target_cell blocked_cells = Some p" "p \<noteq> []"
    "hd p = e_cell e" "\<forall>c\<in>set p. in_grid c"
    using astar_head [OF g assms(1), of blocked_cells] by blast
  define e1 where "e1 = e\<lparr>e_repath_timer := e_repath_timer e - dt, e_path := p,
     e_next_idx := (if length p > 1 then 1 else 0), e_repath_timer := ENEMY_REPATH_EVERY\<rparr>"
  have "e_cell e \<in> set p"
    using p(2,3) hd_in_set by metis
  then have "agent_at e1"
    using g p(4) by (simp add: agent_at_def e1_def)
  then have "agent_at (enemy_move dt e1)"
    by (rule enemy_move_at)
  moreover have "enemy_update dt target_cell blocked_cells e = Some (enemy_move dt e1)"
    using True p(1) by (simp add: enemy_update_def Let_def e1_def)
  ultimately show ?thesis by simp
next
  case False
  then have "agent_at (e\<lparr>e_repath_timer := e_repath_timer e - dt\<rparr>)"
    using assms(2) by (auto simp: agent_pre_def agent_at_def)
  then have "agent_at (enemy_move dt (e\<lparr>e_repath_timer := e_repath_timer e - dt\<rparr>))"
    by (rule enemy_move_at)
  moreover have "enemy_update dt target_cell blocked_cells e
                 = Some (enemy_move dt (e\<lparr>e_repath_timer := e_repath_timer e - dt\<rparr>))"
    using False by (simp add: enemy_update_def Let_def)
  ultimately show ?thesis by simp
qed

lemma update_enemies_at:
  assumes "in_grid target_cell"
  shows "\<forall>e\<in>set es. agent_pre e \<Longrightarrow>
    \<exists>es'. update_enemies dt target_cell blocked_cells es = Some es' \<and> (\<forall>e\<in>set es'. agent_at e)"
proof (induction es)
  case Nil
  then show ?case by simp
next
  case (Cons e es)
  then obtain e' where e': "enemy_update dt target_cell blocked_cells e = Some e'" "agent_at e'"
    using enemy_update_at [OF assms, of e dt blocked_cells] by auto
  from Cons obtain es' where es': "update_enemies dt target_cell blocked_cells es = Some es'"
    "\<forall>e\<in>set es'. agent_at e"
    by auto
  show ?case
    using e' es' by simp
qed

lemma agent_at_pre: "agent_at e \<Longrightarrow> agent_pre e"
  by (simp add: agent_at_def agent_pre_def)

lemma Enemy_pre: "in_grid c \<Longrightarrow> Enemy kind c = Inr e \<Longrightarrow> agent_pre e"
  by (auto simp: Enemy_def agent_pre_def split: if_splits prod.splits)

lemma spawn_enemy_pre:
  assumes "0 \<le> rnd" and "rnd < CELLS" and "spawn_enemy sd rnd kind = Inr e"
  shows "agent_pre e"
proof -
  have c: "0 < CELLS" by (simp add: CELLS_def RES_def SIZE_def)
  have "in_grid (rnd, if sd = Top then 0 else CELLS - 1)"
    "in_grid (if sd = Left then 0 else CELLS - 1, rnd)"
    using assms(1,2) c by (simp_all add: in_grid_def)
  then show ?thesis
    using assms(3) Enemy_pre by (auto simp: spawn_enemy_def split: if_splits)
qed

text \<open>The combat pass only removes agents or takes hit points from them.\<close>

lemma hit_enemies_keeps:
  assumes "\<And>e h. Q e \<Longrightarrow> Q (e\<lparr>e_hp := h\<rparr>)"
  shows "\<forall>e\<in>set es. Q e \<Longrightarrow> \<forall>e\<in>set (fst (hit_enemies cp p es)). Q e"
  by (induction es) (auto simp: Let_def assms split: prod.splits)

lemma bullet_vs_enemies_keeps:
  assumes "\<And>e h. Q e \<Longrightarrow> Q (e\<lparr>e_hp := h\<rparr>)"
  shows "\<forall>e\<in>set es. Q e \<Longrightarrow> \<forall>e\<in>set (snd (bullet_vs_enemies cp b es)). Q e"
  using hit_enemies_keeps [of Q es cp "b_pos b", OF assms]
  by (auto simp: bullet_vs_enemies_def split: prod.splits)

lemma bullets_vs_enemies_keeps:
  assumes "\<And>e h. Q e \<Longrightarrow> Q (e\<lparr>e_hp := h\<rparr>)"
  shows "\<forall>e\<in>set es. Q e \<Longrightarrow> \<forall>e\<in>set (snd (bullets_vs_enemies cp bs es)). Q e"
proof (induction bs arbitrary: es)
  case Nil
  then show ?case by simp
next
  case (Cons b bs)
  obtain b1 es1 where a: "bullet_vs_enemies cp b es = (b1, es1)"
    by (cases "bullet_vs_enemies cp b es") auto
  have "\<forall>e\<in>set es1. Q e"
    using bullet_vs_enemies_keeps [of Q es cp b, OF assms] Cons.prems a by simp
  from Cons.IH [OF this] show ?case
    using a by (simp split: prod.splits)
qed

lemma collisions_fields:
  "grid_x (collisions cp cr s) = grid_x s" "grid_y (collisions cp cr s) = grid_y s"
  "length_cells (collisions cp cr s) = length_cells s" "score (collisions cp cr s) = score s"
  "enemies (collisions cp cr s) = snd (bullets_vs_enemies cp (bullets s) (enemies s))"
  by (simp_all add: collisions_def head_phase_def combat_phase_def split: prod.splits)

lemma collisions_agents:
  assumes "\<forall>e\<in>set (enemies s). agent_at e"
  shows "\<forall>e\<in>set (enemies (collisions cp cr s)). agent_at e"
  unfolding collisions_fields
  by (rule bullets_vs_enemies_keeps [OF _ assms]) (simp add: agent_at_def)


lemma frame_sim_agents:
  assumes "frame_sim cp cr i s = Some (Inr s')" and "agents_ok s"
    and "0 \<le> in_rnd i" and "in_rnd i < CELLS"
  shows "agents_ok s'"
proof -
  from assms(1) obtain s1 s2 rest s3 s4 where
    ev: "process_events s (in_events i) = Inr s1"
    and st: "snake_steps (s1\<lparr>progress := progress s1 + real_of_int SPEED * in_dt i / real_of_int SIZE\<rparr>)
               (in_apples i) = Some (Inr (s2, rest))"
    and sp: "spawn_phase i (bullets_phase (in_dt i) (trail_phase s2)) = Inr s3"
    and en: "enemies_phase (in_dt i) s3 = Some s4"
    and s': "s' = collisions cp cr s4"
    by (auto simp: frame_sim_def split: sum.splits option.splits prod.splits)
  have 1: "in_grid (grid_x s2, grid_y s2)" "enemies s2 = enemies s"
    using process_events_keeps [OF ev] snake_steps_keeps [OF st] assms(2)
    by (simp_all add: agents_ok_def)
  have 3: "in_grid (grid_x s3, grid_y s3)" "\<forall>e\<in>set (enemies s3). agent_pre e"
    using sp 1 assms(2) spawn_enemy_pre [OF assms(3,4)] agent_at_pre
    by (auto simp: spawn_phase_def bullets_phase_def trail_phase_def agents_ok_def Let_def
        split: if_splits sum.splits)
  obtain es where es: "update_enemies (in_dt i) (grid_x s3, grid_y s3) (set (body s3)) (enemies s3) = Some es"
    "\<forall>e\<in>set es. agent_at e"
    using update_enemies_at [OF 3(1) 3(2)] by blast
  have 4: "in_grid (grid_x s4, grid_y s4)" "\<forall>e\<in>set (enemies s4). agent_at e"
    using en es 3(1) by (auto simp: enemies_phase_def)
  show ?thesis
    using 4 collisions_agents [OF 4(2)] s' by (simp add: agents_ok_def collisions_fields)
qed

lemma frame_Inr: "frame cp cr i s = Some (Inr s') \<Longrightarrow> frame_sim cp cr i s = Some (Inr s')"
  by (auto simp: frame_def split: option.splits sum.splits if_splits)


lemma run_frames_agents:
  "run_frames cp cr s inputs = Some (Inr s') \<Longrightarrow> agents_ok s
   \<Longrightarrow> \<forall>i\<in>set inputs. 0 \<le> in_rnd i \<and> in_rnd i < CELLS \<Longrightarrow> agents_ok s'"
proof (induction inputs arbitrary: s)
  case Nil
  then show ?case by simp
next
  case (Cons i inputs)
  then obtain s1 where a: "frame cp cr i s = Some (Inr s1)"
    and b: "run_frames cp cr s1 inputs = Some (Inr s')"
    by (auto split: option.splits sum.splits)
  have "agents_ok s1"
    using frame_sim_agents [OF frame_Inr [OF a] Cons.prems(2)] Cons.prems(3) by simp
  from Cons.IH [OF b this] Cons.prems(3) show ?case by simp
qed

lemma init_game_ok: "counters_ok (init_game apple0)" "agents_ok (init_game apple0)"
  by (simp_all add: counters_ok_def agents_ok_def init_game_def in_grid_def
      CELLS_def RES_def SIZE_def)

section \<open>An example frame\<close>

lemma apple_step:
  "snake_step (apple_scene\<lparr>progress := 3 / 2\<rparr>) [(20, 20), (3, 4)]
     = Some (Inr (False, apple_scene_stepped, []))"
  by (simp add: snake_step_def apple_scene_stepped_def apple_scene_def init_game_def
      apply_queued_def can_turn_def move_to_cell_def Let_def CELLS_def RES_def SIZE_def
      INIT_LEN_def)

lemma apple_steps:
  "snake_steps (apple_scene\<lparr>progress := 3 / 2\<rparr>) [(20, 20), (3, 4)]
     = Some (Inr (apple_scene_stepped, []))"
proof -
  have g: "1 \<le> progress (apple_scene\<lparr>progress := 3 / 2\<rparr>)"
    "\<not> game_over (apple_scene\<lparr>progress := 3 / 2\<rparr>)"
    by (simp_all add: apple_scene_def init_game_def)
  have a: "snake_steps (apple_scene\<lparr>progress := 3 / 2\<rparr>) [(20, 20), (3, 4)]
           = snake_steps apple_scene_stepped []"
    by (subst snake_steps.simps) (simp only: g apple_step, simp)
  have "\<not> 1 \<le> progress apple_scene_stepped"
    by (simp add: apple_scene_stepped_def)
  then show ?thesis
    unfolding a by (subst snake_steps.simps) simp
qed

lemma apple_trail:
  "trail_step [(400, 400)] 410 400 6 = [(400, 400), (410, 400)]"
  by (simp add: trail_step_def trim_path_to_length_def seg_dists_def SIZE_def hypot_axis Let_def)

lemma apple_frame_sim:
  "frame_sim cp cr apple_frame apple_scene = Some (Inr apple_scene_after)"
proof -
  have ev: "process_events apple_scene (in_events apple_frame) = Inr apple_scene"
    by (simp add: apple_frame_def)
  have p: "apple_scene\<lparr>progress := progress apple_scene
             + real_of_int SPEED * in_dt apple_frame / real_of_int SIZE\<rparr>
           = apple_scene\<lparr>progress := 3 / 2\<rparr>"
    by (simp add: apple_scene_def init_game_def apple_frame_def SPEED_def SPEED_CELLS_def SIZE_def)
  have ap: "in_apples apple_frame = [(20, 20), (3, 4)]"
    by (simp add: apple_frame_def)
  have st: "snake_steps (apple_scene\<lparr>progress := progress apple_scene
             + real_of_int SPEED * in_dt apple_frame / real_of_int SIZE\<rparr>) (in_apples apple_frame)
           = Some (Inr (apple_scene_stepped, []))"
    by (simp only: p ap apple_steps)
  have t: "trail_phase apple_scene_stepped = apple_scene_after"
    by (simp add: trail_phase_def Let_def apple_scene_after_def apple_scene_stepped_def
        apple_scene_def init_game_def apple_trail SIZE_def CELLS_def RES_def)
  have b: "bullets_phase (in_dt apple_frame) apple_scene_after = apple_scene_after"
    by (simp add: bullets_phase_def update_bullets_def apple_scene_after_def
        apple_scene_stepped_def apple_scene_def init_game_def)
  have s: "spawn_phase apple_frame apple_scene_after = Inr apple_scene_after"
    by (simp add: spawn_phase_def apple_frame_def apple_scene_after_def apple_scene_stepped_def
        apple_scene_def init_game_def ENEMY_SPAWN_EVERY_def)
  have e: "enemies_phase (in_dt apple_frame) apple_scene_after = Some apple_scene_after"
    by (simp add: enemies_phase_def apple_scene_after_def apple_scene_stepped_def
        apple_scene_def init_game_def)
  have c: "collisions cp cr apple_scene_after = apple_scene_after"
    by (simp add: collisions_def head_phase_def combat_phase_def apple_scene_after_def
        apple_scene_stepped_def apple_scene_def init_game_def)
  show ?thesis
    by (simp add: frame_sim_def ev st t b s e c)
qed

lemma apple_run:
  "run_frames cp cr apple_scene [apple_frame] = Some (Inr apple_scene_after)"
proof -
  have "\<not> game_over apple_scene_after"
    by (simp add: apple_scene_after_def apple_scene_stepped_def apple_scene_def init_game_def)
  then show ?thesis
    by (simp add: frame_def apple_frame_sim)
qed

section \<open>Combat before head contact\<close>

lemma head_hit_iff: "head_hit cr headR es \<longleftrightarrow> (\<exists>e\<in>set es. cr (enemy_rect e) headR)"
  by (induction es) auto

lemma hit_enemies_alive:
  "\<forall>e\<in>set es. 0 < e_hp e \<Longrightarrow> \<forall>e\<in>set (fst (hit_enemies cp p es)). 0 < e_hp e"
  by (induction es) (auto simp: Let_def split: prod.splits)

lemma bullet_vs_enemies_alive:
  "\<forall>e\<in>set es. 0 < e_hp e \<Longrightarrow> \<forall>e\<in>set (snd (bullet_vs_enemies cp b es)). 0 < e_hp e"
  using hit_enemies_alive [of es cp "b_pos b"]
  by (auto simp: bullet_vs_enemies_def split: prod.splits)

lemma bullets_vs_enemies_alive:
  "\<forall>e\<in>set es. 0 < e_hp e \<Longrightarrow> \<forall>e\<in>set (snd (bullets_vs_enemies cp bs es)). 0 < e_hp e"
proof (induction bs arbitrary: es)
  case Nil
  then show ?case by simp
next
  case (Cons b bs)
  obtain b1 es1 where a: "bullet_vs_enemies cp b es = (b1, es1)"
    by (cases "bullet_vs_enemies cp b es") auto
  have "\<forall>e\<in>set es1. 0 < e_hp e"
    using bullet_vs_enemies_alive [OF Cons.prems, of cp b] a by simp
  from Cons.IH [OF this] show ?case
    using a by (simp split: prod.splits)
qed

lemma enemy_update_hp: "enemy_update dt target_cell blocked_cells e = Some e' \<Longrightarrow> e_hp e' = e_hp e"
  by (auto simp: enemy_update_def enemy_move_def Let_def split: option.splits if_splits)

lemma update_enemies_alive:
  "update_enemies dt target_cell blocked_cells es = Some es' \<Longrightarrow> \<forall>e\<in>set es. 0 < e_hp e
   \<Longrightarrow> \<forall>e\<in>set es'. 0 < e_hp e"
proof (induction es arbitrary: es')
  case Nil
  then show ?case by simp
next
  case (Cons e es)
  from Cons.prems(1) obtain e1 es1 where
    a: "enemy_update dt target_cell blocked_cells e = Some e1"
    and b: "update_enemies dt target_cell blocked_cells es = Some es1"
    and c: "es' = e1 # es1"
    by (auto split: option.splits)
  have "\<forall>e\<in>set es1. 0 < e_hp e"
    using Cons.IH [OF b] Cons.prems(2) by simp
  then show ?case
    using enemy_update_hp [OF a] Cons.prems(2) c by simp
qed

lemma spawn_enemy_alive: "spawn_enemy sd rnd kind = Inr e \<Longrightarrow> 0 < e_hp e"
proof -
  have "0 < e_hp e" if "Enemy kind c = Inr e" for c
  proof -
    from that have k: "kind < 3"
      by (simp add: Enemy_def TYPES_def split: if_splits)
    then have "kind = 0 \<or> kind = 1 \<or> kind = 2"
      by arith
    then show ?thesis
      using that by (auto simp: Enemy_def TYPES_def)
  qed
  then show "spawn_enemy sd rnd kind = Inr e \<Longrightarrow> 0 < e_hp e"
    by (auto simp: spawn_enemy_def split: if_splits)
qed

text \<open>Every frame ends with the collision phase, on a state whose agents are alive when
  they were at the frame's start.\<close>

lemma frame_sim_collisions:
  assumes "frame_sim cp cr i s = Some (Inr s')" and "\<forall>e\<in>set (enemies s). 0 < e_hp e"
  shows "\<exists>s4. s' = collisions cp cr s4 \<and> (\<forall>e\<in>set (enemies s4). 0 < e_hp e)"
proof -
  from assms(1) obtain s1 s2 rest s3 s4 where
    ev: "process_events s (in_events i) = Inr s1"
    and st: "snake_steps (s1\<lparr>progress := progress s1 + real_of_int SPEED * in_dt i / real_of_int SIZE\<rparr>)
               (in_apples i) = Some (Inr (s2, rest))"
    and sp: "spawn_phase i (bullets_phase (in_dt i) (trail_phase s2)) = Inr s3"
    and en: "enemies_phase (in_dt i) s3 = Some s4"
    and s': "s' = collisions cp cr s4"
    by (auto simp: frame_sim_def split: sum.splits option.splits prod.splits)
  have 2: "enemies s2 = enemies s"
    using process_events_keeps [OF ev] snake_steps_keeps [OF st] by simp
  have 3: "\<forall>e\<in>set (enemies s3). 0 < e_hp e"
    using sp 2 assms(2) spawn_enemy_alive
    by (auto simp: spawn_phase_def bullets_phase_def trail_phase_def Let_def
        split: if_splits sum.splits)
  have "\<forall>e\<in>set (enemies s4). 0 < e_hp e"
    using en update_enemies_alive [OF _ 3] by (auto simp: enemies_phase_def split: option.splits)
  then show ?thesis
    using s' by blast
qed

lemma collisions_alive:
  "\<forall>e\<in>set (enemies s). 0 < e_hp e \<Longrightarrow> \<forall>e\<in>set (enemies (collisions cp cr s)). 0 < e_hp e"
  unfolding collisions_fields by (rule bullets_vs_enemies_alive)

lemma run_frames_alive:
  "run_frames cp cr s inputs = Some (Inr s') \<Longrightarrow> \<forall>e\<in>set (enemies s). 0 < e_hp e
   \<Longrightarrow> \<forall>e\<in>set (enemies s'). 0 < e_hp e"
proof (induction inputs arbitrary: s)
  case Nil
  then show ?case by simp
next
  case (Cons i inputs)
  then obtain s1 where a: "frame cp cr i s = Some (Inr s1)"
    and b: "run_frames cp cr s1 inputs = Some (Inr s')"
    by (auto split: option.splits sum.splits)
  obtain s4 where "s1 = collisions cp cr s4" "\<forall>e\<in>set (enemies s4). 0 < e_hp e"
    using frame_sim_collisions [OF frame_Inr [OF a] Cons.prems(2)] by blast
  then have "\<forall>e\<in>set (enemies s1). 0 < e_hp e"
    using collisions_alive by blast
  from Cons.IH [OF b this] show ?case .
qed

text \<open>Claim C6. In every frame the collision phase runs the combat pass and then the head
  check on the agents the combat pass left. With every live agent at positive hp before
  it, the combat pass leaves no agent at hp zero or below in the collection: an agent
  whose hp reached zero is gone from it. The head check can set \<^verbatim>\<open>game_over\<close> only through an
  agent of that collection, so never through an agent a projectile destroyed in this
  frame. And every frame of a run from the initial state ends with the collision phase
  on a state whose live agents all have positive hp.\<close>

theorem kill_precedes_head_check:
  "((\<forall>e\<in>set (enemies s). 0 < e_hp e) \<longrightarrow>
      enemies (collisions cp cr s) = enemies (combat_phase cp s)
      \<and> (\<forall>e\<in>set (enemies (combat_phase cp s)). 0 < e_hp e)
      \<and> game_over (collisions cp cr s)
          = (game_over s \<or> (\<exists>e\<in>set (enemies (combat_phase cp s)).
                               0 < e_hp e \<and> cr (enemy_rect e) (head_rect (x_px s) (y_px s)))))
   \<and> (run_frames cp cr (init_game apple0) inputs = Some (Inr s0)
        \<and> frame_sim cp cr i s0 = Some (Inr s') \<longrightarrow>
        (\<exists>s4. s' = collisions cp cr s4 \<and> (\<forall>e\<in>set (enemies s4). 0 < e_hp e)))"
proof (intro conjI impI)
  assume al: "\<forall>e\<in>set (enemies s). 0 < e_hp e"
  have e: "enemies (combat_phase cp s) = snd (bullets_vs_enemies cp (bullets s) (enemies s))"
    by (simp add: combat_phase_def split: prod.splits)
  have a: "\<forall>e\<in>set (enemies (combat_phase cp s)). 0 < e_hp e"
    unfolding e using al by (rule bullets_vs_enemies_alive)
  have f: "x_px (combat_phase cp s) = x_px s" "y_px (combat_phase cp s) = y_px s"
    "game_over (combat_phase cp s) = game_over s"
    by (simp_all add: combat_phase_def split: prod.splits)
  have g: "game_over (collisions cp cr s)
        = (game_over s \<or> (\<exists>e\<in>set (enemies (combat_phase cp s)).
                             cr (enemy_rect e) (head_rect (x_px s) (y_px s))))"
    by (auto simp: collisions_def head_phase_def f head_hit_iff)
  show "enemies (collisions cp cr s) = enemies (combat_phase cp s)"
    by (simp add: collisions_def head_phase_def)
  show "\<forall>e\<in>set (enemies (combat_phase cp s)). 0 < e_hp e"
    by (rule a)
  show "game_over (collisions cp cr s)
          = (game_over s \<or> (\<exists>e\<in>set (enemies (combat_phase cp s)).
                               0 < e_hp e \<and> cr (enemy_rect e) (head_rect (x_px s) (y_px s))))"
    using a g by blast
next
  assume r: "run_frames cp cr (init_game apple0) inputs = Some (Inr s0)
        \<and> frame_sim cp cr i s0 = Some (Inr s')"
  have "\<forall>e\<in>set (enemies (init_game apple0)). 0 < e_hp e"
    by (simp add: init_game_def)
  then have "\<forall>e\<in>set (enemies s0). 0 < e_hp e"
    using run_frames_alive r by blast
  then show "\<exists>s4. s' = collisions cp cr s4 \<and> (\<forall>e\<in>set (enemies s4). 0 < e_hp e)"
    using frame_sim_collisions r by blast
qed

lemma pink_agent_hit: "point_in_rect (enemy_rect pink_agent) (b_pos centre_bullet)"
  by (simp add: point_in_rect_def enemy_rect_def pink_agent_def centre_bullet_def py_int_def)

lemma kill_scene_enemies: "enemies (combat_phase point_in_rect kill_scene) = []"
proof -
  have "hit_enemies point_in_rect (b_pos centre_bullet) [pink_agent] = ([], True)"
    using pink_agent_hit by (simp add: Let_def pink_agent_def)
  moreover have "\<not> b_hit centre_bullet"
    by (simp add: centre_bullet_def)
  ultimately have "snd (bullet_vs_enemies point_in_rect centre_bullet [pink_agent]) = []"
    by (simp add: bullet_vs_enemies_def)
  then have "snd (bullets_vs_enemies point_in_rect [centre_bullet] [pink_agent]) = []"
    by (auto split: prod.splits)
  moreover have "bullets kill_scene = [centre_bullet]" "enemies kill_scene = [pink_agent]"
    by (simp_all add: kill_scene_def)
  ultimately show ?thesis
    by (simp add: combat_phase_def split: prod.splits)
qed

theorem kill_precedes_head_check_witness:
  "list_all (\<lambda>e. 0 < e_hp e) (enemies kill_scene)
   \<and> rects_overlap (enemy_rect pink_agent) (head_rect (x_px kill_scene) (y_px kill_scene))
   \<and> enemies (collisions point_in_rect rects_overlap kill_scene) = []
   \<and> \<not> game_over (collisions point_in_rect rects_overlap kill_scene)
   \<and> run_frames point_in_rect rects_overlap (init_game (21, 20)) [] = Some (Inr apple_scene)
   \<and> frame_sim point_in_rect rects_overlap apple_frame apple_scene = Some (Inr apple_scene_after)
   \<and> (\<exists>s4. apple_scene_after = collisions point_in_rect rects_overlap s4)"
proof -
  have a: "\<forall>e\<in>set (enemies kill_scene). 0 < e_hp e"
    by (simp add: kill_scene_def pink_agent_def)
  have b: "rects_overlap (enemy_rect pink_agent) (head_rect (x_px kill_scene) (y_px kill_scene))"
    by (simp add: rects_overlap_def enemy_rect_def head_rect_def pink_agent_def kill_scene_def
        init_game_def py_int_def CELLS_def RES_def SIZE_def)
  have c: "enemies (combat_phase point_in_rect kill_scene) = []"
    by (rule kill_scene_enemies)
  have d: "\<not> game_over kill_scene"
    by (simp add: kill_scene_def init_game_def)
  have r: "run_frames point_in_rect rects_overlap (init_game (21, 20)) [] = Some (Inr apple_scene)"
    by (simp add: apple_scene_def)
  note f = apple_frame_sim [of point_in_rect rects_overlap]
  from kill_precedes_head_check [of kill_scene point_in_rect rects_overlap] a c d
  have 1: "enemies (collisions point_in_rect rects_overlap kill_scene) = []
        \<and> \<not> game_over (collisions point_in_rect rects_overlap kill_scene)"
    by simp
  from kill_precedes_head_check [of _ point_in_rect rects_overlap "(21, 20)" "[]" apple_scene
      apple_frame apple_scene_after] r f
  have 2: "\<exists>s4. apple_scene_after = collisions point_in_rect rects_overlap s4"
    by blast
  show ?thesis
    using a b 1 2 r f by (simp add: list_all_iff)
qed

section \<open>One hit per projectile\<close>


lemma damaged_not_same: "damaged e \<noteq> [e]"
proof
  assume eq: "damaged e = [e]"
  then have "e\<lparr>e_hp := e_hp e - 1\<rparr> = e"
    by (simp add: damaged_def split: if_splits)
  then have "e_hp (e\<lparr>e_hp := e_hp e - 1\<rparr>) = e_hp e"
    by (rule arg_cong)
  then show False by simp
qed

lemma damaged_changes: "i < length es \<Longrightarrow> take i es @ damaged (es ! i) @ drop (Suc i) es \<noteq> es"
proof
  assume i: "i < length es" and eq: "take i es @ damaged (es ! i) @ drop (Suc i) es = es"
  have "es = take i es @ [es ! i] @ drop (Suc i) es"
    using i by (simp add: id_take_nth_drop [symmetric])
  with eq have "take i es @ damaged (es ! i) @ drop (Suc i) es
                = take i es @ [es ! i] @ drop (Suc i) es"
    by simp
  then have "damaged (es ! i) = [es ! i]"
    by simp
  then show False
    using damaged_not_same by blast
qed





section \<open>Claims about the frame loop\<close>





text \<open>Claim C10. The apple is kept off the body only where it is relocated: a step that
  changes the apple leaves it on a cell that is not on the body. The first apple is the
  drawn cell as it is, and the draw \<open>(CELLS div 2, CELLS div 2)\<close>, a possible result of
  \<^verbatim>\<open>(randrange(CELLS), randrange(CELLS))\<close>, puts it on the initial head cell, which is on
  the body.\<close>

theorem initial_apple_unchecked:
  "(snake_step s draws = Some (Inr (brk, s', draws')) \<and> apple s' \<noteq> apple s
      \<longrightarrow> apple s' \<notin> set (body s'))
   \<and> apple (init_game apple0) = apple0
   \<and> in_grid (CELLS div 2, CELLS div 2)
   \<and> apple (init_game (CELLS div 2, CELLS div 2))
       = (grid_x (init_game (CELLS div 2, CELLS div 2)), grid_y (init_game (CELLS div 2, CELLS div 2)))
   \<and> apple (init_game (CELLS div 2, CELLS div 2)) \<in> set (body (init_game (CELLS div 2, CELLS div 2)))"
proof (intro conjI impI)
  assume "snake_step s draws = Some (Inr (brk, s', draws')) \<and> apple s' \<noteq> apple s"
  then show "apple s' \<notin> set (body s')"
    by (auto simp: snake_step_def Let_def split: option.splits if_splits sum.splits
        dest: relocate_apple_off_body)
qed (simp_all add: init_game_def in_grid_def CELLS_def RES_def SIZE_def)

theorem initial_apple_unchecked_witness:
  "snake_step (apple_scene\<lparr>progress := 3 / 2\<rparr>) [(20, 20), (3, 4)]
     = Some (Inr (False, apple_scene_stepped, []))
   \<and> apple apple_scene_stepped \<noteq> apple (apple_scene\<lparr>progress := 3 / 2\<rparr>)
   \<and> apple apple_scene_stepped \<notin> set (body apple_scene_stepped)
   \<and> apple (init_game (CELLS div 2, CELLS div 2))
       \<in> set (body (init_game (CELLS div 2, CELLS div 2)))"
proof -
  have n: "apple apple_scene_stepped \<noteq> apple (apple_scene\<lparr>progress := 3 / 2\<rparr>)"
    by (simp add: apple_scene_stepped_def apple_scene_def init_game_def)
  from initial_apple_unchecked [of "apple_scene\<lparr>progress := 3 / 2\<rparr>" "[(20, 20), (3, 4)]"
      False apple_scene_stepped "[]"] apple_step n
  show ?thesis by blast
qed

section \<open>Firing\<close>

text \<open>Claim C2, as the code has it. For a fire intent whose aim point equals the head's
  centre, the handler raises no division error: the zero length is replaced by the divisor
  \<open>1\<close>, and the created projectile's velocity is the zero vector.\<close>

theorem fire_at_head_centre:
  assumes "real_of_int mx = x + real_of_int SIZE / 2"
    and "real_of_int my = y + real_of_int SIZE / 2"
  shows "fire x y mx my =
           Inr \<lparr>b_pos = (x + real_of_int SIZE / 2, y + real_of_int SIZE / 2), b_vel = (0, 0),
                b_r = BULLET_RADIUS, b_hit = False, b_t_hit = 0, b_alpha = 255\<rparr>"
  using assms by (simp add: fire_def Let_def hypot_def py_or_def py_div_def)

theorem fire_at_head_centre_witness:
  "real_of_int 410 = 400 + real_of_int SIZE / 2 \<and> real_of_int 410 = 400 + real_of_int SIZE / 2
   \<and> fire 400 400 410 410 =
       Inr \<lparr>b_pos = (400 + real_of_int SIZE / 2, 400 + real_of_int SIZE / 2), b_vel = (0, 0),
            b_r = BULLET_RADIUS, b_hit = False, b_t_hit = 0, b_alpha = 255\<rparr>"
proof -
  have a: "real_of_int 410 = 400 + real_of_int SIZE / 2"
    by (simp add: SIZE_def)
  from fire_at_head_centre [OF a a] a show ?thesis
    by blast
qed

theorem fire_at_head_centre_counterexample:
  "\<not> (\<exists>b. fire 400 400 410 410 = Inr b \<and> b_vel b \<noteq> (0, 0))"
  by (simp add: fire_def Let_def hypot_def py_or_def py_div_def SIZE_def)

section \<open>Trail length\<close>

lemma long_frame_steps:
  "snake_steps ((init_game (0, 0))\<lparr>progress := 15\<rparr>) []
     = Some (Inr ((init_game (0, 0))\<lparr>progress := 0, grid_x := 35,
          body := [(31, 20), (32, 20), (33, 20), (34, 20), (35, 20)]\<rparr>, []))"
  by (simp add: snake_steps.simps snake_step_def init_game_def apply_queued_def can_turn_def
      move_to_cell_def Let_def CELLS_def RES_def SIZE_def INIT_LEN_def)

lemma long_frame_trail:
  "trail_step [(400, 400)] 680 400 5 = [(500, 400), (680, 400)]"
  by (simp add: trail_step_def trim_path_to_length_def seg_dists_def SIZE_def hypot_axis
      py_or_def Let_def)

lemma later_phases_keep_trail:
  assumes "spawn_phase i (bullets_phase dt s) = Inr s3" and "enemies_phase dt' s3 = Some s4"
  shows "path_pts (collisions cp cr s4) = path_pts s" "length_cells (collisions cp cr s4) = length_cells s"
proof -
  have "path_pts s3 = path_pts s \<and> length_cells s3 = length_cells s"
    using assms(1) by (auto simp: spawn_phase_def bullets_phase_def split: if_splits sum.splits)
  moreover have "path_pts s4 = path_pts s3 \<and> length_cells s4 = length_cells s3"
    using assms(2) by (auto simp: enemies_phase_def split: option.splits)
  moreover have "path_pts (collisions cp cr s4) = path_pts s4"
    by (simp add: collisions_def head_phase_def combat_phase_def split: prod.splits)
  ultimately show "path_pts (collisions cp cr s4) = path_pts s"
    "length_cells (collisions cp cr s4) = length_cells s"
    by (simp_all add: collisions_fields)
qed

lemma long_frame_sim:
  "\<exists>s'. frame_sim cp cr long_frame (init_game (0, 0)) = Some (Inr s')
        \<and> path_pts s' = [(500, 400), (680, 400)] \<and> length_cells s' = 5"
proof -
  define s2 where "s2 = (init_game (0, 0))\<lparr>progress := 0, grid_x := 35,
          body := [(31, 20), (32, 20), (33, 20), (34, 20), (35, 20)]\<rparr>"
  have ev: "process_events (init_game (0, 0)) (in_events long_frame) = Inr (init_game (0, 0))"
    by (simp add: long_frame_def)
  have p: "(init_game (0, 0))\<lparr>progress := progress (init_game (0, 0))
             + real_of_int SPEED * in_dt long_frame / real_of_int SIZE\<rparr>
           = (init_game (0, 0))\<lparr>progress := 15\<rparr>"
    by (simp add: init_game_def long_frame_def SPEED_def SPEED_CELLS_def SIZE_def)
  have ap: "in_apples long_frame = []"
    by (simp add: long_frame_def)
  have st: "snake_steps ((init_game (0, 0))\<lparr>progress := progress (init_game (0, 0))
             + real_of_int SPEED * in_dt long_frame / real_of_int SIZE\<rparr>) (in_apples long_frame)
           = Some (Inr (s2, []))"
    by (simp only: p ap long_frame_steps s2_def)
  have t: "path_pts (trail_phase s2) = [(500, 400), (680, 400)]" "length_cells (trail_phase s2) = 5"
    "grid_x (trail_phase s2) = 35" "grid_y (trail_phase s2) = 20" "enemies (trail_phase s2) = []"
    "\<not> game_over (trail_phase s2)" "last_spawn_time (trail_phase s2) = 0"
    by (simp_all add: trail_phase_def Let_def s2_def init_game_def long_frame_trail SIZE_def
        CELLS_def RES_def INIT_LEN_def)
  obtain e where e: "spawn_enemy (in_side long_frame) (in_rnd long_frame) (in_kind long_frame) = Inr e"
    by (simp add: spawn_enemy_def Enemy_def TYPES_def long_frame_def)
  have pre: "agent_pre e"
    using spawn_enemy_pre [OF _ _ e] by (simp add: long_frame_def CELLS_def RES_def SIZE_def)
  define s3 where "s3 = (bullets_phase (in_dt long_frame) (trail_phase s2))
     \<lparr>enemies := enemies (bullets_phase (in_dt long_frame) (trail_phase s2)) @ [e],
      last_spawn_time := in_now long_frame\<rparr>"
  have sp: "spawn_phase long_frame (bullets_phase (in_dt long_frame) (trail_phase s2)) = Inr s3"
    using e t(6,7) by (simp add: spawn_phase_def bullets_phase_def s3_def long_frame_def
        ENEMY_SPAWN_EVERY_def)
  have 3: "enemies s3 = [e]" "grid_x s3 = 35" "grid_y s3 = 20"
    using t(3,4,5) by (simp_all add: s3_def bullets_phase_def)
  have "in_grid (35, 20)"
    by (simp add: in_grid_def CELLS_def RES_def SIZE_def)
  then obtain es where "update_enemies (in_dt long_frame) (35, 20) (set (body s3)) [e] = Some es"
    using update_enemies_at [of "(35, 20)" "[e]"] pre by fastforce
  then have en: "enemies_phase (in_dt long_frame) s3 = Some (s3\<lparr>enemies := es\<rparr>)"
    using 3 by (simp add: enemies_phase_def)
  have f: "frame_sim cp cr long_frame (init_game (0, 0))
           = Some (Inr (collisions cp cr (s3\<lparr>enemies := es\<rparr>)))"
    by (simp add: frame_sim_def ev st sp en)
  show ?thesis
    using f later_phases_keep_trail [OF sp en, of cp cr] t(1,2) by simp
qed

text \<open>Claim C1, at a failing input. A first frame that took one second moves the head from
  pixel \<open>(400, 400)\<close> to \<open>(680, 400)\<close>; the trail \<open>[(400, 400)]\<close> with that position appended is
  trimmed with the budget \<open>5 * SIZE = 100\<close> to \<open>[(500, 400), (680, 400)]\<close>, of length \<open>180\<close>:
  the cut point is set at the fraction \<open>1 - t\<close> of the cut segment instead of \<open>t\<close>. The frame
  ends with that trail.\<close>

theorem trail_exceeds_budget:
  "trail_step [(400, 400)] 680 400 5 = [(500, 400), (680, 400)]
   \<and> path_len [(500, 400), (680, 400)] = 180
   \<and> real_of_int (5 * SIZE) = 100
   \<and> (\<exists>s'. frame_sim cp cr long_frame (init_game (0, 0)) = Some (Inr s')
         \<and> path_pts s' = [(500, 400), (680, 400)] \<and> length_cells s' = 5)"
  using long_frame_sim [of cp cr] by (simp add: long_frame_trail hypot_axis SIZE_def)

section \<open>Turn legality\<close>

text \<open>Claim C8. For every heading \<open>(dx, dy)\<close>, a queued direction that is its exact opposite
  \<open>(-dx, -dy)\<close> leaves the heading unchanged when it is applied at a grid-step boundary, and
  an intent for the exact opposite is not queued either: the queued direction stays what
  it was. In the loop: a step with the exact opposite queued keeps the heading, and a key
  that asks for the exact opposite leaves the state as it is.\<close>

theorem reversal_never_changes_heading:
  "apply_queued (dx, dy) (- dx, - dy) = (dx, dy)
   \<and> queue_dir (dx, dy) q (- dx, - dy) = q
   \<and> \<not> can_turn (dx, dy) (- dx, - dy)
   \<and> (queued_dir s = (- dir_x s, - dir_y s) \<and> snake_step s draws = Some (Inr (brk, s', draws'))
        \<longrightarrow> dir_x s' = dir_x s \<and> dir_y s' = dir_y s)
   \<and> (key_dir (dir_x s, dir_y s) k = (- dir_x s, - dir_y s)
        \<longrightarrow> process_event s (KEYDOWN k) = Inr s)"
proof (intro conjI impI)
  assume "queued_dir s = (- dir_x s, - dir_y s) \<and> snake_step s draws = Some (Inr (brk, s', draws'))"
  then show "dir_x s' = dir_x s" "dir_y s' = dir_y s"
    by (auto simp: snake_step_def Let_def apply_queued_def can_turn_def
        split: option.splits if_splits sum.splits)
next
  assume "key_dir (dir_x s, dir_y s) k = (- dir_x s, - dir_y s)"
  then show "process_event s (KEYDOWN k) = Inr s"
    by (simp add: process_event_def on_keydown_def queue_dir_def can_turn_def)
qed (simp_all add: apply_queued_def queue_dir_def can_turn_def)

theorem reversal_never_changes_heading_witness:
  "apply_queued (1, 0) (- 1, - 0) = (1, 0)
   \<and> queue_dir (1, 0) (0, 1) (- 1, - 0) = (0, 1)
   \<and> \<not> can_turn (1, 0) (- 1, - 0)
   \<and> key_dir (dir_x apple_scene, dir_y apple_scene) K_a = (- dir_x apple_scene, - dir_y apple_scene)
   \<and> process_event apple_scene (KEYDOWN K_a) = Inr apple_scene
   \<and> queued_dir (apple_scene\<lparr>queued_dir := (- 1, 0), progress := 3 / 2\<rparr>)
       = (- dir_x (apple_scene\<lparr>queued_dir := (- 1, 0), progress := 3 / 2\<rparr>),
          - dir_y (apple_scene\<lparr>queued_dir := (- 1, 0), progress := 3 / 2\<rparr>))
   \<and> snake_step (apple_scene\<lparr>queued_dir := (- 1, 0), progress := 3 / 2\<rparr>) [(20, 20), (3, 4)]
       = Some (Inr (False, apple_scene_stepped\<lparr>queued_dir := (- 1, 0)\<rparr>, []))
   \<and> dir_x (apple_scene_stepped\<lparr>queued_dir := (- 1, 0)\<rparr>) = 1
   \<and> dir_y (apple_scene_stepped\<lparr>queued_dir := (- 1, 0)\<rparr>) = 0"
proof -
  have k: "key_dir (dir_x apple_scene, dir_y apple_scene) K_a
           = (- dir_x apple_scene, - dir_y apple_scene)"
    by (simp add: key_dir_def apple_scene_def init_game_def)
  have q: "queued_dir (apple_scene\<lparr>queued_dir := (- 1, 0), progress := 3 / 2\<rparr>)
       = (- dir_x (apple_scene\<lparr>queued_dir := (- 1, 0), progress := 3 / 2\<rparr>),
          - dir_y (apple_scene\<lparr>queued_dir := (- 1, 0), progress := 3 / 2\<rparr>))"
    by (simp add: apple_scene_def init_game_def)
  have st: "snake_step (apple_scene\<lparr>queued_dir := (- 1, 0), progress := 3 / 2\<rparr>) [(20, 20), (3, 4)]
       = Some (Inr (False, apple_scene_stepped\<lparr>queued_dir := (- 1, 0)\<rparr>, []))"
    by (simp add: snake_step_def apple_scene_stepped_def apple_scene_def init_game_def
        apply_queued_def can_turn_def move_to_cell_def Let_def CELLS_def RES_def SIZE_def
        INIT_LEN_def)
  have d: "dir_x (apple_scene\<lparr>queued_dir := (- 1, 0), progress := 3 / 2\<rparr>) = 1"
    "dir_y (apple_scene\<lparr>queued_dir := (- 1, 0), progress := 3 / 2\<rparr>) = 0"
    by (simp_all add: apple_scene_def init_game_def)
  from reversal_never_changes_heading [of 1 0 "(0, 1)"
      "apple_scene\<lparr>queued_dir := (- 1, 0), progress := 3 / 2\<rparr>" "[(20, 20), (3, 4)]" False
      "apple_scene_stepped\<lparr>queued_dir := (- 1, 0)\<rparr>" "[]"] q st d
  have 1: "apply_queued (1, 0) (- 1, - 0) = (1, 0)" "queue_dir (1, 0) (0, 1) (- 1, - 0) = (0, 1)"
    "\<not> can_turn (1, 0) (- 1, - 0)"
    "dir_x (apple_scene_stepped\<lparr>queued_dir := (- 1, 0)\<rparr>) = 1"
    "dir_y (apple_scene_stepped\<lparr>queued_dir := (- 1, 0)\<rparr>) = 0"
    by simp_all
  from reversal_never_changes_heading [of _ _ _ apple_scene _ _ _ _ K_a] k
  have 2: "process_event apple_scene (KEYDOWN K_a) = Inr apple_scene"
    by blast
  show ?thesis
    using 1 2 k q st by blast
qed

section \<open>Agents move by snapping to path nodes\<close>

lemma enemy_move_snapped:
  assumes "e_cell (enemy_move dt e) \<noteq> e_cell e"
  shows "snapped dt e (enemy_move dt e)"
proof -
  define nxt where "nxt = e_path e ! e_next_idx e"
  define dist where "dist = hypot (fst (cell_centre nxt) - fst (e_pos e))
                                  (snd (cell_centre nxt) - snd (e_pos e))"
  have m: "enemy_move dt e =
     (if e_next_idx e < length (e_path e) then
        (if dist > 1 / 1000000 then
           (if real_of_int (e_speed_px e) * dt \<ge> dist
            then e\<lparr>e_pos := cell_centre nxt, e_cell := nxt, e_next_idx := e_next_idx e + 1\<rparr>
            else e\<lparr>e_pos := (fst (e_pos e) + (fst (cell_centre nxt) - fst (e_pos e)) / dist
                                 * (real_of_int (e_speed_px e) * dt),
                              snd (e_pos e) + (snd (cell_centre nxt) - snd (e_pos e)) / dist
                                 * (real_of_int (e_speed_px e) * dt))\<rparr>)
         else e)
      else e)"
    by (simp add: enemy_move_def Let_def nxt_def dist_def cell_centre_def)
  from assms have c: "e_next_idx e < length (e_path e)" "dist > 1 / 1000000"
    "real_of_int (e_speed_px e) * dt \<ge> dist"
    unfolding m by (auto split: if_splits)
  then have r: "enemy_move dt e
      = e\<lparr>e_pos := cell_centre nxt, e_cell := nxt, e_next_idx := e_next_idx e + 1\<rparr>"
    unfolding m by simp
  show ?thesis
    unfolding r snapped_def using c by (auto simp: nxt_def dist_def)
qed

lemma enemy_update_snapped:
  assumes "enemy_update dt target_cell blocked_cells e = Some e'" and "e_cell e' \<noteq> e_cell e"
  shows "snapped dt e e'"
proof -
  from assms(1) obtain e1 where e1: "e' = enemy_move dt e1" "e_cell e1 = e_cell e"
    "e_pos e1 = e_pos e" "e_speed_px e1 = e_speed_px e"
    by (auto simp: enemy_update_def Let_def split: if_splits option.splits)
  have "snapped dt e1 (enemy_move dt e1)"
    using assms(2) e1 by (intro enemy_move_snapped) simp
  then show ?thesis
    using e1 by (simp add: snapped_def)
qed

lemma update_enemies_nth:
  "update_enemies dt target_cell blocked_cells es = Some es' \<Longrightarrow>
     length es' = length es
     \<and> (\<forall>j<length es. enemy_update dt target_cell blocked_cells (es ! j) = Some (es' ! j))"
proof (induction es arbitrary: es')
  case Nil
  then show ?case by simp
next
  case (Cons e es)
  from Cons.prems obtain e1 es1 where
    a: "enemy_update dt target_cell blocked_cells e = Some e1"
    and b: "update_enemies dt target_cell blocked_cells es = Some es1"
    and c: "es' = e1 # es1"
    by (auto split: option.splits)
  from Cons.IH [OF b] show ?case
    using a c by (auto simp: nth_Cons split: nat.splits)
qed

lemma combat_keeps_place:
  "\<forall>x\<in>set (snd (bullets_vs_enemies cp bs es)).
     \<exists>y\<in>set es. e_cell x = e_cell y \<and> e_pos x = e_pos y \<and> e_path x = e_path y
                \<and> e_next_idx x = e_next_idx y"
  by (rule bullets_vs_enemies_keeps) auto

lemma Enemy_centre: "Enemy kind c = Inr e \<Longrightarrow> e_cell e = c \<and> e_pos e = cell_centre c"
  by (auto simp: Enemy_def cell_centre_def split: if_splits prod.splits)

lemma walking_agent_snaps:
  "enemy_update (1 / 20) (20, 20) {(20, 20)} walking_agent = Some arrived_agent"
  by (simp add: enemy_update_def enemy_move_def walking_agent_def arrived_agent_def Let_def
      SIZE_def hypot_axis)

lemma walking_agent_travels:
  "enemy_update (1 / 60) (20, 20) {(20, 20)} walking_agent
     = Some (walking_agent\<lparr>e_repath_timer := 7 / 30, e_pos := (125, 110)\<rparr>)"
  by (simp add: enemy_update_def enemy_move_def walking_agent_def Let_def SIZE_def hypot_axis)

lemma hypot_axis_y: "hypot 0 dy = \<bar>dy\<bar>"
  by (simp add: hypot_def)

lemma centre_dist_adjacent:
  assumes "adjacent4 c n"
  shows "hypot (fst (cell_centre n) - fst (cell_centre c)) (snd (cell_centre n) - snd (cell_centre c))
         = 20"
proof -
  obtain cx cy nx ny where e: "c = (cx, cy)" "n = (nx, ny)"
    by (cases c, cases n) blast
  from assms e have "\<bar>cx - nx\<bar> + \<bar>cy - ny\<bar> = 1"
    by (simp add: adjacent4_def)
  then have "(nx = cx + 1 \<and> ny = cy) \<or> (nx = cx - 1 \<and> ny = cy)
      \<or> (nx = cx \<and> ny = cy + 1) \<or> (nx = cx \<and> ny = cy - 1)"
    by arith
  then show ?thesis
    using e by (auto simp: cell_centre_def SIZE_def hypot_axis hypot_axis_y)
qed

lemma enemy_move_alt:
  "enemy_move dt e =
     (if e_next_idx e < length (e_path e) then
        (if hypot (fst (cell_centre (e_path e ! e_next_idx e)) - fst (e_pos e))
                  (snd (cell_centre (e_path e ! e_next_idx e)) - snd (e_pos e)) > 1 / 1000000 then
           (if real_of_int (e_speed_px e) * dt
                 \<ge> hypot (fst (cell_centre (e_path e ! e_next_idx e)) - fst (e_pos e))
                          (snd (cell_centre (e_path e ! e_next_idx e)) - snd (e_pos e))
            then e\<lparr>e_pos := cell_centre (e_path e ! e_next_idx e),
                   e_cell := e_path e ! e_next_idx e, e_next_idx := e_next_idx e + 1\<rparr>
            else e\<lparr>e_pos :=
                     (fst (e_pos e)
                        + (fst (cell_centre (e_path e ! e_next_idx e)) - fst (e_pos e))
                          / hypot (fst (cell_centre (e_path e ! e_next_idx e)) - fst (e_pos e))
                                  (snd (cell_centre (e_path e ! e_next_idx e)) - snd (e_pos e))
                          * (real_of_int (e_speed_px e) * dt),
                      snd (e_pos e)
                        + (snd (cell_centre (e_path e ! e_next_idx e)) - snd (e_pos e))
                          / hypot (fst (cell_centre (e_path e ! e_next_idx e)) - fst (e_pos e))
                                  (snd (cell_centre (e_path e ! e_next_idx e)) - snd (e_pos e))
                          * (real_of_int (e_speed_px e) * dt))\<rparr>)
         else e)
      else e)"
  by (simp add: enemy_move_def Let_def cell_centre_def)

text \<open>A fresh agent's first update, in a frame long enough for one cell of travel: it
  stays on its cell or snaps onto a neighbouring one.\<close>

lemma fresh_agent_update:
  assumes e: "Enemy kind c = Inr e" and g: "in_grid c" "in_grid target_cell"
    and far: "real_of_int (e_speed_px e) * dt \<ge> 20"
  shows "\<exists>e'. enemy_update dt target_cell blocked_cells e = Some e'
           \<and> e_pos e' = cell_centre (e_cell e') \<and> in_grid (e_cell e')
           \<and> (e_cell e' = c \<or> adjacent4 c (e_cell e')) \<and> e_size e' = SIZE - 2"
proof -
  have f: "e_path e = []" "e_cell e = c" "e_pos e = cell_centre c" "e_size e = SIZE - 2"
    using e by (auto simp: Enemy_def cell_centre_def split: if_splits prod.splits)
  obtain p where p: "astar c target_cell blocked_cells = Some p" "p \<noteq> []" "hd p = c"
    using astar_head [OF g, of blocked_cells] by blast
  define e1 where "e1 = e\<lparr>e_repath_timer := e_repath_timer e - dt, e_path := p,
     e_next_idx := (if length p > 1 then 1 else 0), e_repath_timer := ENEMY_REPATH_EVERY\<rparr>"
  have u: "enemy_update dt target_cell blocked_cells e = Some (enemy_move dt e1)"
    using f p(1) by (simp add: enemy_update_def Let_def e1_def)
  have e1f: "e_path e1 = p" "e_cell e1 = c" "e_pos e1 = cell_centre c" "e_size e1 = SIZE - 2"
    "e_speed_px e1 = e_speed_px e" "e_next_idx e1 = (if length p > 1 then 1 else 0)"
    using f by (simp_all add: e1_def)
  have p0: "p ! 0 = c"
    using p(2,3) by (cases p) simp_all
  show ?thesis
  proof (cases "length p > 1")
    case False
    then have "enemy_move dt e1 = e1"
      using e1f p(2) p0 by (subst enemy_move_alt) (simp add: hypot_axis)
    then show ?thesis
      using u e1f g(1) by simp
  next
    case True
    then have "p \<noteq> [c]" by auto
    then have "grid_path c target_cell blocked_cells p"
      using astar_in_grid [OF g, of blocked_cells] p(1)
      by (auto simp: shortest_grid_path_def split: if_splits)
    then have "walk target_cell blocked_cells p"
      by (simp add: grid_path_def)
    then have st: "step_ok target_cell blocked_cells c (p ! 1)"
      using walk_nth [of target_cell blocked_cells p 0] True p0 by simp
    then have adj: "adjacent4 c (p ! 1)" and ing: "in_grid (p ! 1)"
      by (simp_all add: step_ok_def)
    have d: "hypot (fst (cell_centre (p ! 1)) - fst (cell_centre c))
                   (snd (cell_centre (p ! 1)) - snd (cell_centre c)) = 20"
      using adj by (rule centre_dist_adjacent)
    have "enemy_move dt e1
          = e1\<lparr>e_pos := cell_centre (p ! 1), e_cell := p ! 1, e_next_idx := e_next_idx e1 + 1\<rparr>"
      using e1f True d far by (subst enemy_move_alt) simp
    then show ?thesis
      using u e1f adj ing by simp
  qed
qed

text \<open>The long first frame up to the collision phase: the trail, and the one agent, which
  was created on cell \<open>(0, 0)\<close> and updated once.\<close>

lemma long_frame_before_collisions:
  "\<exists>s4 e'. frame_sim cp cr long_frame (init_game (0, 0)) = Some (Inr (collisions cp cr s4))
        \<and> path_pts s4 = [(500, 400), (680, 400)] \<and> length_cells s4 = 5
        \<and> enemies s4 = [e'] \<and> bullets s4 = [] \<and> \<not> game_over s4
        \<and> x_px s4 = 680 \<and> y_px s4 = 400
        \<and> e_pos e' = cell_centre (e_cell e') \<and> in_grid (e_cell e')
        \<and> (e_cell e' = (0, 0) \<or> adjacent4 (0, 0) (e_cell e')) \<and> e_size e' = SIZE - 2"
proof -
  define s2 where "s2 = (init_game (0, 0))\<lparr>progress := 0, grid_x := 35,
          body := [(31, 20), (32, 20), (33, 20), (34, 20), (35, 20)]\<rparr>"
  have ev: "process_events (init_game (0, 0)) (in_events long_frame) = Inr (init_game (0, 0))"
    by (simp add: long_frame_def)
  have p: "(init_game (0, 0))\<lparr>progress := progress (init_game (0, 0))
             + real_of_int SPEED * in_dt long_frame / real_of_int SIZE\<rparr>
           = (init_game (0, 0))\<lparr>progress := 15\<rparr>"
    by (simp add: init_game_def long_frame_def SPEED_def SPEED_CELLS_def SIZE_def)
  have ap: "in_apples long_frame = []"
    by (simp add: long_frame_def)
  have st: "snake_steps ((init_game (0, 0))\<lparr>progress := progress (init_game (0, 0))
             + real_of_int SPEED * in_dt long_frame / real_of_int SIZE\<rparr>) (in_apples long_frame)
           = Some (Inr (s2, []))"
    by (simp only: p ap long_frame_steps s2_def)
  define s2t where "s2t = bullets_phase (in_dt long_frame) (trail_phase s2)"
  have t: "path_pts s2t = [(500, 400), (680, 400)]" "length_cells s2t = 5"
    "grid_x s2t = 35" "grid_y s2t = 20" "enemies s2t = []"
    "\<not> game_over s2t" "last_spawn_time s2t = 0" "bullets s2t = []"
    "x_px s2t = 680" "y_px s2t = 400"
    by (simp_all add: s2t_def bullets_phase_def update_bullets_def trail_phase_def Let_def s2_def
        init_game_def long_frame_trail SIZE_def CELLS_def RES_def INIT_LEN_def)
  obtain e where e: "Enemy 0 (0, 0) = Inr e"
    by (simp add: Enemy_def TYPES_def)
  have sp_e: "spawn_enemy (in_side long_frame) (in_rnd long_frame) (in_kind long_frame) = Inr e"
    using e by (simp add: spawn_enemy_def long_frame_def)
  define s3 where "s3 = s2t\<lparr>enemies := enemies s2t @ [e], last_spawn_time := in_now long_frame\<rparr>"
  have sp: "spawn_phase long_frame s2t = Inr s3"
    using sp_e t(6,7) by (simp add: spawn_phase_def s3_def long_frame_def ENEMY_SPAWN_EVERY_def)
  have g: "in_grid (0, 0)" "in_grid (35, 20)"
    by (simp_all add: in_grid_def CELLS_def RES_def SIZE_def)
  have "e_speed_px e = 300"
    using e by (auto simp: Enemy_def TYPES_def SIZE_def)
  then have far: "real_of_int (e_speed_px e) * in_dt long_frame \<ge> 20"
    by (simp add: long_frame_def)
  from fresh_agent_update [OF e g far, of "set (body s3)"]
  obtain e' where e': "enemy_update (in_dt long_frame) (35, 20) (set (body s3)) e = Some e'"
    "e_pos e' = cell_centre (e_cell e')" "in_grid (e_cell e')"
    "e_cell e' = (0, 0) \<or> adjacent4 (0, 0) (e_cell e')" "e_size e' = SIZE - 2"
    by blast
  have en: "enemies_phase (in_dt long_frame) s3 = Some (s3\<lparr>enemies := [e']\<rparr>)"
    using e'(1) t(3,4,5) by (simp add: enemies_phase_def s3_def)
  have f: "frame_sim cp cr long_frame (init_game (0, 0))
           = Some (Inr (collisions cp cr (s3\<lparr>enemies := [e']\<rparr>)))"
    by (simp add: frame_sim_def ev st sp en s2t_def [symmetric])
  show ?thesis
    using f t e'(2-5) by (intro exI [of _ "s3\<lparr>enemies := [e']\<rparr>"] exI [of _ e']) (simp add: s3_def)
qed

text \<open>The same frame as a run of one frame: the agent is far from the head, so the frame
  does not end the game.\<close>

lemma long_frame_run:
  "\<exists>s' e'. run_frames point_in_rect rects_overlap (init_game (0, 0)) [long_frame] = Some (Inr s')
       \<and> enemies s' = [e']"
proof -
  obtain s4 e' where a: "frame_sim point_in_rect rects_overlap long_frame (init_game (0, 0))
        = Some (Inr (collisions point_in_rect rects_overlap s4))"
    "enemies s4 = [e']" "bullets s4 = []" "\<not> game_over s4" "x_px s4 = 680" "y_px s4 = 400"
    "e_pos e' = cell_centre (e_cell e')" "in_grid (e_cell e')"
    "e_cell e' = (0, 0) \<or> adjacent4 (0, 0) (e_cell e')" "e_size e' = SIZE - 2"
    using long_frame_before_collisions [of point_in_rect rects_overlap] by blast
  obtain cx cy where c: "e_cell e' = (cx, cy)"
    by (cases "e_cell e'") auto
  have "0 \<le> cx \<and> cx \<le> 1 \<and> 0 \<le> cy \<and> cy \<le> 1"
    using a(8,9) c by (auto simp: in_grid_def adjacent4_def)
  then have "r_left (enemy_rect e') \<le> 21"
    using a(7,10) c by (auto simp: enemy_rect_def cell_centre_def SIZE_def py_int_def)
  then have "\<not> rects_overlap (enemy_rect e') (head_rect 680 400)"
    using a(10) by (simp add: rects_overlap_def head_rect_def enemy_rect_def py_int_def SIZE_def)
  then have h: "\<not> head_hit rects_overlap (head_rect 680 400) [e']"
    by simp
  have cb: "combat_phase point_in_rect s4 = s4"
    using a(2,3) by (simp add: combat_phase_def)
  have col: "collisions point_in_rect rects_overlap s4 = s4"
    using h a(2,5,6) by (simp add: collisions_def cb head_phase_def)
  have "frame point_in_rect rects_overlap long_frame (init_game (0, 0)) = Some (Inr s4)"
    using a(1,4) by (simp add: frame_def col)
  then have "run_frames point_in_rect rects_overlap (init_game (0, 0)) [long_frame] = Some (Inr s4)"
    by simp
  then show ?thesis
    using a(2) by blast
qed

text \<open>Within a frame, the agents at the end are single updates of the agents at the
  start and of the agent created in the frame.\<close>

lemma frame_sim_agents_updated:
  assumes "frame_sim cp cr i s = Some (Inr s')" and "x \<in> set (enemies s')"
  shows "\<exists>y y'. (y \<in> set (enemies s) \<or> spawn_enemy (in_side i) (in_rnd i) (in_kind i) = Inr y)
           \<and> enemy_update (in_dt i) (grid_x s', grid_y s') (set (body s')) y = Some y'
           \<and> e_cell x = e_cell y' \<and> e_pos x = e_pos y' \<and> e_path x = e_path y'
           \<and> e_next_idx x = e_next_idx y'"
proof -
  from assms(1) obtain s1 s2 rest s3 s4 where
    ev: "process_events s (in_events i) = Inr s1"
    and st: "snake_steps (s1\<lparr>progress := progress s1 + real_of_int SPEED * in_dt i / real_of_int SIZE\<rparr>)
               (in_apples i) = Some (Inr (s2, rest))"
    and sp: "spawn_phase i (bullets_phase (in_dt i) (trail_phase s2)) = Inr s3"
    and en: "enemies_phase (in_dt i) s3 = Some s4"
    and s': "s' = collisions cp cr s4"
    by (auto simp: frame_sim_def split: sum.splits option.splits prod.splits)
  have 2: "enemies s2 = enemies s"
    using process_events_keeps [OF ev] snake_steps_keeps [OF st] by simp
  have 3: "\<forall>y\<in>set (enemies s3). y \<in> set (enemies s)
             \<or> spawn_enemy (in_side i) (in_rnd i) (in_kind i) = Inr y"
    using sp 2 by (auto simp: spawn_phase_def bullets_phase_def trail_phase_def Let_def
        split: if_splits sum.splits)
  obtain es where es: "update_enemies (in_dt i) (grid_x s3, grid_y s3) (set (body s3)) (enemies s3)
                         = Some es"
    and s4: "s4 = s3\<lparr>enemies := es\<rparr>"
    using en by (auto simp: enemies_phase_def split: option.splits)
  have same: "grid_x s' = grid_x s3" "grid_y s' = grid_y s3" "body s' = body s3"
    "enemies s' = snd (bullets_vs_enemies cp (bullets s4) es)"
    using s' s4 by (simp_all add: collisions_def head_phase_def combat_phase_def split: prod.splits)
  from assms(2) same(4) obtain y' where y': "y' \<in> set es" "e_cell x = e_cell y'"
    "e_pos x = e_pos y'" "e_path x = e_path y'" "e_next_idx x = e_next_idx y'"
    using combat_keeps_place [of cp "bullets s4" es] by auto
  then obtain j where j: "j < length es" "es ! j = y'"
    by (auto simp: in_set_conv_nth)
  from update_enemies_nth [OF es] j have l: "j < length (enemies s3)"
    and u: "enemy_update (in_dt i) (grid_x s3, grid_y s3) (set (body s3)) (enemies s3 ! j) = Some y'"
    by auto
  have "enemies s3 ! j \<in> set (enemies s3)"
    using l by simp
  then have "enemies s3 ! j \<in> set (enemies s)
             \<or> spawn_enemy (in_side i) (in_rnd i) (in_kind i) = Inr (enemies s3 ! j)"
    using 3 by blast
  then show ?thesis
    using u y'(2-5) same(1-3) by (intro exI [of _ "enemies s3 ! j"] exI [of _ y']) simp
qed

text \<open>The example frame with the walking agent: the head takes no step, no agent is
  created, and the agent arrives at the next node of its path.\<close>

lemma walk_steps:
  "snake_steps (walk_scene\<lparr>progress := 3 / 4\<rparr>) [] = Some (Inr (walk_scene\<lparr>progress := 3 / 4\<rparr>, []))"
  by (subst snake_steps.simps) simp

lemma walk_trail:
  "trail_step [(400, 400)] 395 400 5 = [(400, 400), (395, 400)]"
  by (simp add: trail_step_def trim_path_to_length_def seg_dists_def SIZE_def hypot_axis
      py_or_def Let_def)

lemma walk_frame_sim:
  "frame_sim point_in_rect rects_overlap walk_frame walk_scene = Some (Inr walk_scene_after)"
proof -
  define s2 where "s2 = walk_scene\<lparr>progress := 3 / 4\<rparr>"
  define s3 where "s3 = walk_scene\<lparr>progress := 3 / 4, x_px := 395,
                          path_pts := [(400, 400), (395, 400)]\<rparr>"
  have ev: "process_events walk_scene (in_events walk_frame) = Inr walk_scene"
    by (simp add: walk_frame_def)
  have p: "walk_scene\<lparr>progress := progress walk_scene
             + real_of_int SPEED * in_dt walk_frame / real_of_int SIZE\<rparr> = s2"
    by (simp add: s2_def walk_scene_def init_game_def walk_frame_def SPEED_def SPEED_CELLS_def
        SIZE_def)
  have ap: "in_apples walk_frame = []"
    by (simp add: walk_frame_def)
  have st: "snake_steps (walk_scene\<lparr>progress := progress walk_scene
             + real_of_int SPEED * in_dt walk_frame / real_of_int SIZE\<rparr>) (in_apples walk_frame)
           = Some (Inr (s2, []))"
    unfolding p ap unfolding s2_def by (rule walk_steps)
  have t: "trail_phase s2 = s3"
    by (simp add: trail_phase_def Let_def s2_def s3_def walk_scene_def init_game_def walk_trail
        SIZE_def CELLS_def RES_def INIT_LEN_def)
  have b: "bullets_phase (in_dt walk_frame) s3 = s3"
    by (simp add: bullets_phase_def update_bullets_def s3_def walk_scene_def init_game_def)
  have s: "spawn_phase walk_frame s3 = Inr s3"
    by (simp add: spawn_phase_def walk_frame_def s3_def walk_scene_def init_game_def
        ENEMY_SPAWN_EVERY_def)
  have f: "in_dt walk_frame = 1 / 20" "grid_x s3 = 20" "grid_y s3 = 20" "body s3 = [(20, 20)]"
    "enemies s3 = [walking_agent]"
    by (simp_all add: walk_frame_def s3_def walk_scene_def init_game_def CELLS_def RES_def
        SIZE_def)
  have e: "enemies_phase (in_dt walk_frame) s3 = Some (s3\<lparr>enemies := [arrived_agent]\<rparr>)"
    by (simp add: enemies_phase_def f walking_agent_snaps)
  have a: "s3\<lparr>enemies := [arrived_agent]\<rparr> = walk_scene_after"
    by (simp add: s3_def walk_scene_after_def)
  have g: "bullets walk_scene_after = []" "enemies walk_scene_after = [arrived_agent]"
    "x_px walk_scene_after = 395" "y_px walk_scene_after = 400"
    by (simp_all add: walk_scene_after_def walk_scene_def init_game_def CELLS_def RES_def
        SIZE_def)
  have cb: "combat_phase point_in_rect walk_scene_after = walk_scene_after"
    by (simp add: combat_phase_def g)
  have "\<not> rects_overlap (enemy_rect arrived_agent) (head_rect 395 400)"
    by (simp add: rects_overlap_def head_rect_def enemy_rect_def py_int_def SIZE_def
        arrived_agent_def walking_agent_def)
  then have c: "collisions point_in_rect rects_overlap walk_scene_after = walk_scene_after"
    by (simp add: collisions_def cb head_phase_def g)
  show ?thesis
    by (simp add: frame_sim_def ev st t b s e a c)
qed

text \<open>Claim C5. An agent's cell is a member of its most recently computed path at every
  frame boundary, and \<^verbatim>\<open>Enemy.update\<close> reassigns the cell only by a snap. A freshly created
  agent stands on the centre of an in-bounds cell, with an empty path; \<^verbatim>\<open>Enemy.update\<close> on
  such an agent, or on one that stands on its path, returns an agent whose cell is on its
  path; whenever the returned agent's cell differs from the cell before, the agent stands
  exactly on the centre of the new cell, the new cell is the node of its path just before
  its next index, and that centre was within the distance \<^verbatim>\<open>speed_px * dt\<close> of the position
  before. In a frame, every agent left at its end is the result of one \<^verbatim>\<open>Enemy.update\<close> on
  an agent of the frame's start or on the agent created in the frame, with the same cell,
  position, path and next index: no other phase writes them. After any number of frames
  from the initial state, and after the simulation part of one more frame, every live
  agent's cell is on its path. The spawn coordinate is a result of \<^verbatim>\<open>randrange(CELLS)\<close>.\<close>

theorem agent_cell_on_path:
  "(in_grid c \<and> Enemy kind c = Inr e0 \<longrightarrow>
      agent_pre e0 \<and> e_cell e0 = c \<and> e_pos e0 = cell_centre c)
   \<and> (agent_pre e \<and> in_grid target_cell \<longrightarrow>
        (\<exists>e'. enemy_update dt target_cell blocked_cells e = Some e'
              \<and> e_cell e' \<in> set (e_path e')))
   \<and> (enemy_update dt target_cell blocked_cells e = Some e1 \<and> e_cell e1 \<noteq> e_cell e \<longrightarrow>
        e_pos e1 = cell_centre (e_cell e1)
        \<and> (\<exists>k<length (e_path e1). e_path e1 ! k = e_cell e1 \<and> e_next_idx e1 = Suc k)
        \<and> hypot (fst (cell_centre (e_cell e1)) - fst (e_pos e))
                 (snd (cell_centre (e_cell e1)) - snd (e_pos e))
             \<le> real_of_int (e_speed_px e) * dt)
   \<and> (frame_sim cp cr i0 s0 = Some (Inr s1) \<longrightarrow>
        (\<forall>x\<in>set (enemies s1).
           \<exists>y y'. (y \<in> set (enemies s0)
                     \<or> spawn_enemy (in_side i0) (in_rnd i0) (in_kind i0) = Inr y)
             \<and> enemy_update (in_dt i0) (grid_x s1, grid_y s1) (set (body s1)) y = Some y'
             \<and> e_cell x = e_cell y' \<and> e_pos x = e_pos y' \<and> e_path x = e_path y'
             \<and> e_next_idx x = e_next_idx y'))
   \<and> ((\<forall>i\<in>set inputs. 0 \<le> in_rnd i \<and> in_rnd i < CELLS)
        \<and> run_frames cp cr (init_game apple0) inputs = Some (Inr s) \<longrightarrow>
        (\<forall>e\<in>set (enemies s). e_cell e \<in> set (e_path e))
        \<and> (\<forall>i s'. 0 \<le> in_rnd i \<and> in_rnd i < CELLS \<and> frame_sim cp cr i s = Some (Inr s')
              \<longrightarrow> (\<forall>e\<in>set (enemies s'). e_cell e \<in> set (e_path e))))"
proof (intro conjI impI)
  assume a: "in_grid c \<and> Enemy kind c = Inr e0"
  then show "agent_pre e0"
    using Enemy_pre by blast
  show "e_cell e0 = c" "e_pos e0 = cell_centre c"
    using a Enemy_centre by blast+
next
  assume "agent_pre e \<and> in_grid target_cell"
  then show "\<exists>e'. enemy_update dt target_cell blocked_cells e = Some e'
              \<and> e_cell e' \<in> set (e_path e')"
    using enemy_update_at [of target_cell e dt blocked_cells] by (auto simp: agent_at_def)
next
  assume "enemy_update dt target_cell blocked_cells e = Some e1 \<and> e_cell e1 \<noteq> e_cell e"
  then have sn: "snapped dt e e1"
    using enemy_update_snapped by blast
  show "e_pos e1 = cell_centre (e_cell e1)"
    "\<exists>k<length (e_path e1). e_path e1 ! k = e_cell e1 \<and> e_next_idx e1 = Suc k"
    "hypot (fst (cell_centre (e_cell e1)) - fst (e_pos e))
           (snd (cell_centre (e_cell e1)) - snd (e_pos e))
       \<le> real_of_int (e_speed_px e) * dt"
    using sn by (simp_all add: snapped_def)
next
  assume "frame_sim cp cr i0 s0 = Some (Inr s1)"
  then show "\<forall>x\<in>set (enemies s1).
           \<exists>y y'. (y \<in> set (enemies s0)
                     \<or> spawn_enemy (in_side i0) (in_rnd i0) (in_kind i0) = Inr y)
             \<and> enemy_update (in_dt i0) (grid_x s1, grid_y s1) (set (body s1)) y = Some y'
             \<and> e_cell x = e_cell y' \<and> e_pos x = e_pos y' \<and> e_path x = e_path y'
             \<and> e_next_idx x = e_next_idx y'"
    using frame_sim_agents_updated by blast
next
  assume a: "(\<forall>i\<in>set inputs. 0 \<le> in_rnd i \<and> in_rnd i < CELLS)
        \<and> run_frames cp cr (init_game apple0) inputs = Some (Inr s)"
  then have ok: "agents_ok s"
    using run_frames_agents [of cp cr "init_game apple0" inputs s] init_game_ok(2) by blast
  then show "\<forall>e\<in>set (enemies s). e_cell e \<in> set (e_path e)"
    by (simp add: agents_ok_def agent_at_def)
  show "\<forall>i s'. 0 \<le> in_rnd i \<and> in_rnd i < CELLS \<and> frame_sim cp cr i s = Some (Inr s')
              \<longrightarrow> (\<forall>e\<in>set (enemies s'). e_cell e \<in> set (e_path e))"
  proof (intro allI impI)
    fix i s'
    assume "0 \<le> in_rnd i \<and> in_rnd i < CELLS \<and> frame_sim cp cr i s = Some (Inr s')"
    then have "agents_ok s'"
      using frame_sim_agents [of cp cr i s s'] ok by blast
    then show "\<forall>e\<in>set (enemies s'). e_cell e \<in> set (e_path e)"
      by (simp add: agents_ok_def agent_at_def)
  qed
qed

theorem agent_cell_on_path_witness:
  "in_grid (5, 0) \<and> in_grid (20, 20)
   \<and> (\<exists>e0 e'. Enemy 0 (5, 0) = Inr e0 \<and> agent_pre e0 \<and> e_cell e0 = (5, 0)
         \<and> e_pos e0 = cell_centre (5, 0)
         \<and> enemy_update (1 / 60) (20, 20) {(19, 20)} e0 = Some e'
         \<and> e_cell e' \<in> set (e_path e'))
   \<and> enemy_update (1 / 20) (20, 20) {(20, 20)} walking_agent = Some arrived_agent
   \<and> e_cell walking_agent = (5, 5) \<and> e_pos walking_agent = (120, 110)
   \<and> e_cell arrived_agent = (6, 5) \<and> e_pos arrived_agent = (130, 110)
   \<and> cell_centre (6, 5) = (130, 110)
   \<and> e_path arrived_agent = [(5, 5), (6, 5)] \<and> e_next_idx arrived_agent = 2
   \<and> hypot (fst (cell_centre (6, 5)) - fst (e_pos walking_agent))
           (snd (cell_centre (6, 5)) - snd (e_pos walking_agent))
       \<le> real_of_int (e_speed_px walking_agent) * (1 / 20)
   \<and> enemy_update (1 / 60) (20, 20) {(20, 20)} walking_agent
       = Some (walking_agent\<lparr>e_repath_timer := 7 / 30, e_pos := (125, 110)\<rparr>)
   \<and> frame_sim point_in_rect rects_overlap walk_frame walk_scene = Some (Inr walk_scene_after)
   \<and> enemies walk_scene = [walking_agent] \<and> enemies walk_scene_after = [arrived_agent]
   \<and> (\<exists>y y'. (y \<in> set (enemies walk_scene)
                 \<or> spawn_enemy (in_side walk_frame) (in_rnd walk_frame) (in_kind walk_frame) = Inr y)
         \<and> enemy_update (in_dt walk_frame) (grid_x walk_scene_after, grid_y walk_scene_after)
             (set (body walk_scene_after)) y = Some y'
         \<and> e_cell y' = (6, 5) \<and> e_pos y' = (130, 110))
   \<and> list_all (\<lambda>i. 0 \<le> in_rnd i \<and> in_rnd i < CELLS) [long_frame]
   \<and> (\<exists>s' e'. run_frames point_in_rect rects_overlap (init_game (0, 0)) [long_frame]
                  = Some (Inr s')
         \<and> enemies s' = [e'] \<and> e_cell e' \<in> set (e_path e')
         \<and> (\<exists>y y'. spawn_enemy (in_side long_frame) (in_rnd long_frame) (in_kind long_frame) = Inr y
               \<and> enemy_update (in_dt long_frame) (grid_x s', grid_y s') (set (body s')) y = Some y'
               \<and> e_cell e' = e_cell y' \<and> e_pos e' = e_pos y'))
   \<and> run_frames point_in_rect rects_overlap (init_game (21, 20)) [apple_frame]
       = Some (Inr apple_scene_after)
   \<and> list_all (\<lambda>i. 0 \<le> in_rnd i \<and> in_rnd i < CELLS) [apple_frame]
   \<and> list_all (\<lambda>e. e_cell e \<in> set (e_path e)) (enemies apple_scene_after)"
proof -
  have g: "in_grid (5, 0)" "in_grid (20, 20)"
    by (simp_all add: in_grid_def CELLS_def RES_def SIZE_def)
  obtain e0 where e0: "Enemy 0 (5, 0) = Inr e0"
    by (simp add: Enemy_def TYPES_def)
  have pre: "agent_pre e0" "e_cell e0 = (5, 0)" "e_pos e0 = cell_centre (5, 0)"
    using agent_cell_on_path [where c = "(5, 0)" and kind = 0 and ?e0.0 = e0] g(1) e0 by blast+
  have upd: "\<exists>e'. enemy_update (1 / 60) (20, 20) {(19, 20)} e0 = Some e' \<and> e_cell e' \<in> set (e_path e')"
    using agent_cell_on_path [where e = e0 and target_cell = "(20, 20)" and dt = "1 / 60"
        and blocked_cells = "{(19, 20)}"] pre(1) g(2) by blast
  note sn = walking_agent_snaps
  have c: "e_cell walking_agent = (5, 5)" "e_pos walking_agent = (120, 110)"
    "e_cell arrived_agent = (6, 5)" "e_path arrived_agent = [(5, 5), (6, 5)]"
    "e_next_idx arrived_agent = 2"
    by (simp_all add: walking_agent_def arrived_agent_def)
  have ne: "e_cell arrived_agent \<noteq> e_cell walking_agent"
    by (simp add: c)
  from agent_cell_on_path [where e = walking_agent and target_cell = "(20, 20)" and dt = "1 / 20"
      and blocked_cells = "{(20, 20)}" and ?e1.0 = arrived_agent] sn ne
  have w: "e_pos arrived_agent = cell_centre (e_cell arrived_agent)"
    "hypot (fst (cell_centre (e_cell arrived_agent)) - fst (e_pos walking_agent))
           (snd (cell_centre (e_cell arrived_agent)) - snd (e_pos walking_agent))
       \<le> real_of_int (e_speed_px walking_agent) * (1 / 20)"
    by blast+
  have cc: "cell_centre (6, 5) = (130, 110)"
    by (simp add: cell_centre_def SIZE_def)
  have w': "e_pos arrived_agent = (130, 110)"
    "hypot (fst (cell_centre (6, 5)) - fst (e_pos walking_agent))
           (snd (cell_centre (6, 5)) - snd (e_pos walking_agent))
       \<le> real_of_int (e_speed_px walking_agent) * (1 / 20)"
    using w by (simp_all only: c(3) cc)
  note wf = walk_frame_sim
  have we: "enemies walk_scene = [walking_agent]" "enemies walk_scene_after = [arrived_agent]"
    by (simp_all add: walk_scene_def walk_scene_after_def)
  have "\<exists>y y'. (y \<in> set (enemies walk_scene)
                 \<or> spawn_enemy (in_side walk_frame) (in_rnd walk_frame) (in_kind walk_frame) = Inr y)
         \<and> enemy_update (in_dt walk_frame) (grid_x walk_scene_after, grid_y walk_scene_after)
             (set (body walk_scene_after)) y = Some y'
         \<and> e_cell arrived_agent = e_cell y' \<and> e_pos arrived_agent = e_pos y'"
    using agent_cell_on_path [where cp = point_in_rect and cr = rects_overlap
        and ?i0.0 = walk_frame and ?s0.0 = walk_scene and ?s1.0 = walk_scene_after] wf we(2)
    by fastforce
  then have wk: "\<exists>y y'. (y \<in> set (enemies walk_scene)
                 \<or> spawn_enemy (in_side walk_frame) (in_rnd walk_frame) (in_kind walk_frame) = Inr y)
         \<and> enemy_update (in_dt walk_frame) (grid_x walk_scene_after, grid_y walk_scene_after)
             (set (body walk_scene_after)) y = Some y'
         \<and> e_cell y' = (6, 5) \<and> e_pos y' = (130, 110)"
    unfolding c(3) w'(1) by metis
  have i: "\<forall>i\<in>set [long_frame]. 0 \<le> in_rnd i \<and> in_rnd i < CELLS"
    by (simp add: long_frame_def CELLS_def RES_def SIZE_def)
  obtain s' e' where r: "run_frames point_in_rect rects_overlap (init_game (0, 0)) [long_frame]
       = Some (Inr s')" "enemies s' = [e']"
    using long_frame_run by blast
  have on: "e_cell e' \<in> set (e_path e')"
    using agent_cell_on_path [where inputs = "[long_frame]" and ?apple0.0 = "(0, 0)" and s = s'
        and cp = point_in_rect and cr = rects_overlap] i r
    by simp
  have fs: "frame_sim point_in_rect rects_overlap long_frame (init_game (0, 0)) = Some (Inr s')"
    using r(1) by (auto simp: frame_def split: option.splits sum.splits if_splits)
  have "\<exists>y y'. (y \<in> set (enemies (init_game (0, 0)))
                     \<or> spawn_enemy (in_side long_frame) (in_rnd long_frame) (in_kind long_frame) = Inr y)
             \<and> enemy_update (in_dt long_frame) (grid_x s', grid_y s') (set (body s')) y = Some y'
             \<and> e_cell e' = e_cell y' \<and> e_pos e' = e_pos y'"
    using agent_cell_on_path [where cp = point_in_rect and cr = rects_overlap
        and ?i0.0 = long_frame and ?s0.0 = "init_game (0, 0)" and ?s1.0 = s'] fs r(2)
    by fastforce
  then have born: "\<exists>y y'. spawn_enemy (in_side long_frame) (in_rnd long_frame) (in_kind long_frame) = Inr y
               \<and> enemy_update (in_dt long_frame) (grid_x s', grid_y s') (set (body s')) y = Some y'
               \<and> e_cell e' = e_cell y' \<and> e_pos e' = e_pos y'"
    by (auto simp: init_game_def)
  have run: "\<exists>s' e'. run_frames point_in_rect rects_overlap (init_game (0, 0)) [long_frame]
                  = Some (Inr s')
         \<and> enemies s' = [e'] \<and> e_cell e' \<in> set (e_path e')
         \<and> (\<exists>y y'. spawn_enemy (in_side long_frame) (in_rnd long_frame) (in_kind long_frame) = Inr y
               \<and> enemy_update (in_dt long_frame) (grid_x s', grid_y s') (set (body s')) y = Some y'
               \<and> e_cell e' = e_cell y' \<and> e_pos e' = e_pos y')"
    using r on born by blast
  have ar: "run_frames point_in_rect rects_overlap (init_game (21, 20)) [apple_frame]
       = Some (Inr apple_scene_after)"
    using apple_run [of point_in_rect rects_overlap] by (simp add: apple_scene_def)
  have ai: "\<forall>i\<in>set [apple_frame]. 0 \<le> in_rnd i \<and> in_rnd i < CELLS"
    by (simp add: apple_frame_def CELLS_def RES_def SIZE_def)
  have ao: "\<forall>e\<in>set (enemies apple_scene_after). e_cell e \<in> set (e_path e)"
    using agent_cell_on_path [where inputs = "[apple_frame]" and ?apple0.0 = "(21, 20)"
        and s = apple_scene_after and cp = point_in_rect and cr = rects_overlap] ai ar
    by blast
  have first: "\<exists>e0 e'. Enemy 0 (5, 0) = Inr e0 \<and> agent_pre e0 \<and> e_cell e0 = (5, 0)
         \<and> e_pos e0 = cell_centre (5, 0)
         \<and> enemy_update (1 / 60) (20, 20) {(19, 20)} e0 = Some e'
         \<and> e_cell e' \<in> set (e_path e')"
    using e0 pre upd by blast
  have l1: "list_all (\<lambda>i. 0 \<le> in_rnd i \<and> in_rnd i < CELLS) [long_frame]"
    using i by (simp only: list_all_iff)
  have l2: "list_all (\<lambda>i. 0 \<le> in_rnd i \<and> in_rnd i < CELLS) [apple_frame]"
    using ai by (simp only: list_all_iff)
  have l3: "list_all (\<lambda>e. e_cell e \<in> set (e_path e)) (enemies apple_scene_after)"
    using ao by (simp only: list_all_iff)
  show ?thesis
    by (intro conjI g first sn c w' cc walking_agent_travels wf we wk l1 run ar l2 l3)
qed

end
